theory Spec2Isabelle
  imports Main
begin

section \<open>Values, errors and the host arithmetic\<close>

text \<open>
  The fields of tokens, syntax nodes and instructions are untyped in the source
  (\<open>value: Any\<close>, \<open>arg: Any\<close>).  A value is \<open>None\<close>, an \<open>int\<close> (unbounded), a
  \<open>str\<close>, or some other object of the host language (a \<open>float\<close>, and whatever
  float arithmetic returns).  The objects of the last kind are the type
  parameter \<open>'h\<close>.
\<close>

datatype 'h pyval = PyNone | PyInt int | PyStr string | PyHost 'h

text \<open>
  Every \<open>raise\<close> of the source, and the exceptions that the list and
  arithmetic operations it uses can raise, as values.
\<close>

datatype 'h error =
    UnexpectedChar char nat          \<comment> \<open>\<open>SyntaxError\<close> of \<open>Lexer.tokens\<close>\<close>
  | Expected string string nat       \<comment> \<open>\<open>SyntaxError\<close> of \<open>Parser.eat\<close>\<close>
  | UnexpectedToken string nat       \<comment> \<open>\<open>SyntaxError\<close> of \<open>Parser.primary\<close>\<close>
  | ValueError string                \<comment> \<open>\<open>int\<close>/\<open>float\<close> of a text that is not a literal\<close>
  | IndexError                       \<comment> \<open>\<open>tokens[i]\<close> out of range, \<open>pop\<close> from an empty list\<close>
  | NotImplementedError string       \<comment> \<open>\<open>Codegen.gen\<close>, unknown operator\<close>
  | RecursionError                   \<comment> \<open>\<open>Codegen.gen\<close>, the last branch calls itself on the same node\<close>
  | NameError "'h pyval"             \<comment> \<open>\<open>VM.run\<close>, undefined variable\<close>
  | ZeroDivisionError
  | OverflowError
  | TypeError
  | RuntimeError string              \<comment> \<open>\<open>VM.run\<close>, unknown instruction\<close>

text \<open>
  Arithmetic on two \<open>int\<close>s is exact and is written out below.  Everything
  else (float literals, arithmetic with a float or any other operand, the float
  that \<open>int / int\<close> and \<open>int ** negative int\<close> return) is the host's and is a
  parameter of the model: the theorems hold for every host.
\<close>

record 'h host =
  float_of_str :: "string \<Rightarrow> 'h"
  host_neg :: "'h pyval \<Rightarrow> 'h error + 'h pyval"
  host_arith :: "string \<Rightarrow> 'h pyval \<Rightarrow> 'h pyval \<Rightarrow> 'h error + 'h pyval"

definition py_neg :: "'h host \<Rightarrow> 'h pyval \<Rightarrow> 'h error + 'h pyval" where
  "py_neg h a = (case a of PyInt x \<Rightarrow> Inr (PyInt (- x)) | _ \<Rightarrow> host_neg h a)"

definition py_add :: "'h host \<Rightarrow> 'h pyval \<Rightarrow> 'h pyval \<Rightarrow> 'h error + 'h pyval" where
  "py_add h a b = (case (a, b) of
      (PyInt x, PyInt y) \<Rightarrow> Inr (PyInt (x + y))
    | _ \<Rightarrow> host_arith h ''ADD'' a b)"

definition py_sub :: "'h host \<Rightarrow> 'h pyval \<Rightarrow> 'h pyval \<Rightarrow> 'h error + 'h pyval" where
  "py_sub h a b = (case (a, b) of
      (PyInt x, PyInt y) \<Rightarrow> Inr (PyInt (x - y))
    | _ \<Rightarrow> host_arith h ''SUB'' a b)"

definition py_mul :: "'h host \<Rightarrow> 'h pyval \<Rightarrow> 'h pyval \<Rightarrow> 'h error + 'h pyval" where
  "py_mul h a b = (case (a, b) of
      (PyInt x, PyInt y) \<Rightarrow> Inr (PyInt (x * y))
    | _ \<Rightarrow> host_arith h ''MUL'' a b)"

text \<open>\<open>a / b\<close>: true division; a zero \<open>int\<close> divisor raises, any other quotient is a float.\<close>

definition py_div :: "'h host \<Rightarrow> 'h pyval \<Rightarrow> 'h pyval \<Rightarrow> 'h error + 'h pyval" where
  "py_div h a b = (case (a, b) of
      (PyInt x, PyInt y) \<Rightarrow> if y = 0 then Inl ZeroDivisionError else host_arith h ''DIV'' a b
    | _ \<Rightarrow> host_arith h ''DIV'' a b)"

text \<open>\<open>a ** b\<close>: an \<open>int\<close> for a non-negative \<open>int\<close> exponent, else a float; \<open>0 ** -n\<close> raises.\<close>

definition py_pow :: "'h host \<Rightarrow> 'h pyval \<Rightarrow> 'h pyval \<Rightarrow> 'h error + 'h pyval" where
  "py_pow h a b = (case (a, b) of
      (PyInt x, PyInt y) \<Rightarrow>
        if 0 \<le> y then Inr (PyInt (x ^ nat y))
        else if x = 0 then Inl ZeroDivisionError
        else host_arith h ''POW'' a b
    | _ \<Rightarrow> host_arith h ''POW'' a b)"

section \<open>Lexer\<close>

datatype 'h token = Token (ttype: string) (tvalue: "'h pyval") (pos: nat)

text \<open>
  The text is a list of 8-bit characters, standing for code points below 256.
  The four predicates are \<open>str.isspace\<close>, \<open>str.isdigit\<close>, \<open>str.isalpha\<close> and
  \<open>str.isalnum\<close> on one such character.
\<close>

definition isspace :: "char \<Rightarrow> bool" where
  "isspace c = (let n = (of_char c :: nat) in
     (9 \<le> n \<and> n \<le> 13) \<or> (28 \<le> n \<and> n \<le> 32) \<or> n = 133 \<or> n = 160)"

definition isdecimal :: "char \<Rightarrow> bool" where
  "isdecimal c = (let n = (of_char c :: nat) in 48 \<le> n \<and> n \<le> 57)"

definition isdigit :: "char \<Rightarrow> bool" where
  "isdigit c = (let n = (of_char c :: nat) in
     (48 \<le> n \<and> n \<le> 57) \<or> n = 178 \<or> n = 179 \<or> n = 185)"

definition isalpha :: "char \<Rightarrow> bool" where
  "isalpha c = (let n = (of_char c :: nat) in
     (65 \<le> n \<and> n \<le> 90) \<or> (97 \<le> n \<and> n \<le> 122) \<or> n = 170 \<or> n = 181 \<or> n = 186 \<or>
     (192 \<le> n \<and> n \<le> 214) \<or> (216 \<le> n \<and> n \<le> 246) \<or> (248 \<le> n \<and> n \<le> 255))"

definition isalnum :: "char \<Rightarrow> bool" where
  "isalnum c = (let n = (of_char c :: nat) in
     isalpha c \<or> isdigit c \<or> (188 \<le> n \<and> n \<le> 190))"

text \<open>\<open>Lexer.skip_ws\<close>: the rest of the text and the new offset.\<close>

fun skip_ws :: "nat \<Rightarrow> string \<Rightarrow> nat \<times> string" where
  "skip_ws i [] = (i, [])"
| "skip_ws i (c # cs) = (if isspace c then skip_ws (i + 1) cs else (i, c # cs))"

text \<open>
  The loop of \<open>Lexer.number\<close>: the characters taken (\<open>num\<close>) and the rest of the
  text; \<open>dot_seen\<close> is the flag of the source.
\<close>

fun number_loop :: "bool \<Rightarrow> string \<Rightarrow> string \<times> string" where
  "number_loop dot_seen [] = ([], [])"
| "number_loop dot_seen (c # cs) =
     (if isdigit c \<or> c = CHR ''.'' then
        (if c = CHR ''.'' \<and> dot_seen then ([], c # cs)
         else (case number_loop (dot_seen \<or> c = CHR ''.'') cs of
                 (num, rest) \<Rightarrow> (c # num, rest)))
      else ([], c # cs))"

text \<open>
  \<open>int(num)\<close> on a text of decimal digits.  (The interpreter's limit on the
  number of digits that \<open>int\<close> converts is not modelled.)
\<close>

definition int_of_str :: "string \<Rightarrow> int" where
  "int_of_str num = foldl (\<lambda>acc c. 10 * acc + (int (of_char c) - 48)) 0 num"

text \<open>
  \<open>Lexer.number\<close>: the token, the new offset and the rest of the text.  A
  character that \<open>isdigit\<close> accepts and that is no decimal digit makes
  \<open>int\<close>/\<open>float\<close> raise \<open>ValueError\<close>.
\<close>

definition number :: "'h host \<Rightarrow> nat \<Rightarrow> string \<Rightarrow> 'h error + ('h token \<times> nat \<times> string)" where
  "number h start_pos cs = (case number_loop False cs of (num, rest) \<Rightarrow>
     if \<not> list_all (\<lambda>c. isdecimal c \<or> c = CHR ''.'') num \<or> \<not> list_ex isdecimal num
       then Inl (ValueError num)
     else if CHR ''.'' \<in> set num
       then Inr (Token ''NUMBER'' (PyHost (float_of_str h num)) start_pos,
                 start_pos + length num, rest)
     else Inr (Token ''NUMBER'' (PyInt (int_of_str num)) start_pos,
               start_pos + length num, rest))"

text \<open>The loop of \<open>Lexer.ident\<close>.\<close>

fun ident_loop :: "string \<Rightarrow> string \<times> string" where
  "ident_loop [] = ([], [])"
| "ident_loop (c # cs) =
     (if isalnum c \<or> c = CHR ''_'' then
        (case ident_loop cs of (ident, rest) \<Rightarrow> (c # ident, rest))
      else ([], c # cs))"

definition ident :: "nat \<Rightarrow> string \<Rightarrow> 'h token \<times> nat \<times> string" where
  "ident start_pos cs = (case ident_loop cs of (ident, rest) \<Rightarrow>
     if ident = ''print'' then (Token ''PRINT'' (PyStr ident) start_pos, start_pos + length ident, rest)
     else (Token ''IDENT'' (PyStr ident) start_pos, start_pos + length ident, rest))"

text \<open>The single-character tokens, in the order of the source's tests.\<close>

definition single_char :: "char \<Rightarrow> string option" where
  "single_char ch =
     (if ch = CHR ''+'' then Some ''PLUS''
      else if ch = CHR ''-'' then Some ''MINUS''
      else if ch = CHR ''*'' then Some ''MUL''
      else if ch = CHR ''/'' then Some ''DIV''
      else if ch = CHR ''^'' then Some ''POW''
      else if ch = CHR ''('' then Some ''LPAREN''
      else if ch = CHR '')'' then Some ''RPAREN''
      else if ch = CHR ''='' then Some ''ASSIGN''
      else None)"

lemma number_loop_length: "length (snd (number_loop d cs)) \<le> length cs"
proof (induction cs arbitrary: d)
  case Nil
  show ?case by simp
next
  case (Cons c cs)
  have "length (snd (number_loop (d \<or> c = CHR ''.'') cs)) \<le> length cs"
    by (rule Cons.IH)
  then show ?case
    by (simp split: prod.splits) (metis le_SucI snd_conv)
qed

lemma ident_loop_length: "length (snd (ident_loop cs)) \<le> length cs"
  by (induction cs) (auto split: prod.splits)

lemma skip_ws_length: "length (snd (skip_ws i cs)) \<le> length cs"
proof (induction cs arbitrary: i)
  case Nil
  show ?case by simp
next
  case (Cons c cs)
  from Cons.IH [of "i + 1"] show ?case by simp
qed

lemma number_loop_digit:
  "isdigit c \<Longrightarrow> length (snd (number_loop False (c # cs))) \<le> length cs"
  using number_loop_length [of "c = CHR ''.''" cs] by (auto split: prod.splits)

lemma ident_loop_alpha:
  "isalpha c \<or> c = CHR ''_'' \<Longrightarrow> length (snd (ident_loop (c # cs))) \<le> length cs"
  using ident_loop_length [of cs] by (auto simp: isalnum_def Let_def split: prod.splits)

lemma number_rest_length:
  "isdigit c \<Longrightarrow> number h i (c # cs) = Inr (tok, i2, cs2) \<Longrightarrow> length cs2 \<le> length cs"
  using number_loop_digit [of c cs]
  by (auto simp: number_def split: prod.splits if_splits)

lemma ident_rest_length:
  "isalpha c \<or> c = CHR ''_'' \<Longrightarrow> ident i (c # cs) = (tok, i2, cs2) \<Longrightarrow> length cs2 \<le> length cs"
  using ident_loop_alpha [of c cs]
  by (auto simp: ident_def split: prod.splits if_splits)

lemma skip_ws_rest_length: "skip_ws i cs = (start, cs1) \<Longrightarrow> length cs1 \<le> length cs"
  using skip_ws_length [of i cs] by simp

text \<open>
  \<open>Lexer.tokens\<close>, from offset \<open>i\<close> with \<open>cs\<close> the text from there on.  The
  list \<open>toks\<close> of the source is the result; an error discards it.
\<close>

function tokens_loop :: "'h host \<Rightarrow> nat \<Rightarrow> string \<Rightarrow> 'h error + 'h token list" where
  "tokens_loop h i cs =
     (case skip_ws i cs of (start, cs1) \<Rightarrow>
       (case cs1 of
          [] \<Rightarrow> Inr [Token ''EOF'' PyNone start]
        | ch # rest \<Rightarrow>
            if isdigit ch then
              (case number h start (ch # rest) of
                 Inl e \<Rightarrow> Inl e
               | Inr (tok, i2, cs2) \<Rightarrow>
                   (case tokens_loop h i2 cs2 of Inl e \<Rightarrow> Inl e | Inr toks \<Rightarrow> Inr (tok # toks)))
            else if isalpha ch \<or> ch = CHR ''_'' then
              (case ident start (ch # rest) of (tok, i2, cs2) \<Rightarrow>
                 (case tokens_loop h i2 cs2 of Inl e \<Rightarrow> Inl e | Inr toks \<Rightarrow> Inr (tok # toks)))
            else
              (case single_char ch of
                 Some kind \<Rightarrow>
                   (case tokens_loop h (start + 1) rest of
                      Inl e \<Rightarrow> Inl e
                    | Inr toks \<Rightarrow> Inr (Token kind (PyStr [ch]) start # toks))
               | None \<Rightarrow> Inl (UnexpectedChar ch start))))"
  by pat_completeness auto
termination
proof (relation "measure (\<lambda>(h, i, cs). length cs)", goal_cases)
  case 1
  show ?case by simp
next
  case 2
  then show ?case
    by (auto dest!: skip_ws_rest_length [OF sym] number_rest_length [rotated])
next
  case 3
  then show ?case
    by (auto dest!: skip_ws_rest_length [OF sym] ident_rest_length [OF _ sym, rotated])
next
  case 4
  then show ?case
    by (auto dest!: skip_ws_rest_length [OF sym])
qed

declare tokens_loop.simps [simp del]

definition tokens :: "'h host \<Rightarrow> string \<Rightarrow> 'h error + 'h token list" where
  "tokens h text = tokens_loop h 0 text"

section \<open>Syntax trees and the parser\<close>

text \<open>
  The six node classes of the source.  Their fields are untyped (\<open>Any\<close>), so a
  field may also hold an object that is no node at all: that is \<open>Other\<close>.
\<close>

datatype 'h node =
    Num "'h pyval"
  | Var "'h pyval"
  | BinOp string "'h node" "'h node"
  | UnaryOp string "'h node"
  | Assign "'h pyval" "'h node"
  | PrintStmt "'h node"
  | Other

text \<open>
  The parser state is the list of the tokens from the cursor \<open>self.i\<close> on;
  \<open>self.tokens[self.i]\<close> on the empty list is the \<open>IndexError\<close> of the source.
  Each method returns its result and the tokens left.  \<open>Parser.eat\<close>:
\<close>

definition eat :: "string \<Rightarrow> 'h token list \<Rightarrow> 'h error + ('h token \<times> 'h token list)" where
  "eat kind ts = (case ts of
      [] \<Rightarrow> Inl IndexError
    | tok # rest \<Rightarrow>
        if ttype tok \<noteq> kind then Inl (Expected kind (ttype tok) (pos tok))
        else Inr (tok, rest))"

text \<open>
  The grammar methods; \<open>expr_loop\<close> and \<open>term_loop\<close> are the \<open>while\<close> loops of
  \<open>expr\<close> and \<open>term\<close>, with \<open>node\<close> the tree built so far.  Where the source
  tests \<open>at(k)\<close> and then calls \<open>eat(k)\<close>, the token is taken off directly.
  The methods are named as in the source, with \<open>term'\<close> and \<open>power'\<close> for
  \<open>term\<close> and \<open>power\<close>.  (The interpreter's bound on the depth of recursion is
  not modelled, here and in \<open>gen\<close>.)
\<close>

function (domintros)
  expr :: "'h token list \<Rightarrow> 'h error + ('h node \<times> 'h token list)" and
  expr_loop :: "'h node \<Rightarrow> 'h token list \<Rightarrow> 'h error + ('h node \<times> 'h token list)" and
  term' :: "'h token list \<Rightarrow> 'h error + ('h node \<times> 'h token list)" and
  term_loop :: "'h node \<Rightarrow> 'h token list \<Rightarrow> 'h error + ('h node \<times> 'h token list)" and
  power' :: "'h token list \<Rightarrow> 'h error + ('h node \<times> 'h token list)" and
  unary :: "'h token list \<Rightarrow> 'h error + ('h node \<times> 'h token list)" and
  primary :: "'h token list \<Rightarrow> 'h error + ('h node \<times> 'h token list)"
where
  "expr ts =
     (case term' ts of Inl e \<Rightarrow> Inl e | Inr (node, ts1) \<Rightarrow> expr_loop node ts1)"
| "expr_loop node ts =
     (case ts of
        [] \<Rightarrow> Inl IndexError
      | tok # rest \<Rightarrow>
          if ttype tok = ''PLUS'' then
            (case term' rest of
               Inl e \<Rightarrow> Inl e
             | Inr (rhs, ts1) \<Rightarrow> expr_loop (BinOp ''+'' node rhs) ts1)
          else if ttype tok = ''MINUS'' then
            (case term' rest of
               Inl e \<Rightarrow> Inl e
             | Inr (rhs, ts1) \<Rightarrow> expr_loop (BinOp ''-'' node rhs) ts1)
          else Inr (node, ts))"
| "term' ts =
     (case power' ts of Inl e \<Rightarrow> Inl e | Inr (node, ts1) \<Rightarrow> term_loop node ts1)"
| "term_loop node ts =
     (case ts of
        [] \<Rightarrow> Inl IndexError
      | tok # rest \<Rightarrow>
          if ttype tok = ''MUL'' then
            (case power' rest of
               Inl e \<Rightarrow> Inl e
             | Inr (rhs, ts1) \<Rightarrow> term_loop (BinOp ''*'' node rhs) ts1)
          else if ttype tok = ''DIV'' then
            (case power' rest of
               Inl e \<Rightarrow> Inl e
             | Inr (rhs, ts1) \<Rightarrow> term_loop (BinOp ''/'' node rhs) ts1)
          else Inr (node, ts))"
| "power' ts =
     (case unary ts of
        Inl e \<Rightarrow> Inl e
      | Inr (node, ts1) \<Rightarrow>
          (case ts1 of
             [] \<Rightarrow> Inl IndexError
           | tok # rest \<Rightarrow>
               if ttype tok = ''POW'' then
                 (case power' rest of
                    Inl e \<Rightarrow> Inl e
                  | Inr (rhs, ts2) \<Rightarrow> Inr (BinOp ''^'' node rhs, ts2))
               else Inr (node, ts1)))"
| "unary ts =
     (case ts of
        [] \<Rightarrow> Inl IndexError
      | tok # rest \<Rightarrow>
          if ttype tok = ''PLUS'' then unary rest
          else if ttype tok = ''MINUS'' then
            (case unary rest of
               Inl e \<Rightarrow> Inl e
             | Inr (node, ts1) \<Rightarrow> Inr (UnaryOp ''-'' node, ts1))
          else primary ts)"
| "primary ts =
     (case ts of
        [] \<Rightarrow> Inl IndexError
      | tok # rest \<Rightarrow>
          if ttype tok = ''NUMBER'' then Inr (Num (tvalue tok), rest)
          else if ttype tok = ''IDENT'' then Inr (Var (tvalue tok), rest)
          else if ttype tok = ''LPAREN'' then
            (case expr rest of
               Inl e \<Rightarrow> Inl e
             | Inr (e, ts1) \<Rightarrow>
                 (case eat ''RPAREN'' ts1 of
                    Inl err \<Rightarrow> Inl err
                  | Inr (rp, ts2) \<Rightarrow> Inr (e, ts2)))
          else Inl (UnexpectedToken (ttype tok) (pos tok)))"
  by pat_completeness auto


text \<open>
  Termination: no method returns more tokens than it was given, so every call
  is on a shorter list or on the same list one grammar level down.
\<close>

lemma parser_length_dom:
  "expr_expr_loop_term'_term_loop_power'_unary_primary_dom (Inl (Inl ts)) \<Longrightarrow>
     \<forall>n r. expr ts = Inr (n, r) \<longrightarrow> length r \<le> length ts"
  "expr_expr_loop_term'_term_loop_power'_unary_primary_dom (Inl (Inr (Inl (node, ts)))) \<Longrightarrow>
     \<forall>n r. expr_loop node ts = Inr (n, r) \<longrightarrow> length r \<le> length ts"
  "expr_expr_loop_term'_term_loop_power'_unary_primary_dom (Inl (Inr (Inr ts))) \<Longrightarrow>
     \<forall>n r. term' ts = Inr (n, r) \<longrightarrow> length r \<le> length ts"
  "expr_expr_loop_term'_term_loop_power'_unary_primary_dom (Inr (Inl (Inl (node, ts)))) \<Longrightarrow>
     \<forall>n r. term_loop node ts = Inr (n, r) \<longrightarrow> length r \<le> length ts"
  "expr_expr_loop_term'_term_loop_power'_unary_primary_dom (Inr (Inl (Inr ts))) \<Longrightarrow>
     \<forall>n r. power' ts = Inr (n, r) \<longrightarrow> length r \<le> length ts"
  "expr_expr_loop_term'_term_loop_power'_unary_primary_dom (Inr (Inr (Inl ts))) \<Longrightarrow>
     \<forall>n r. unary ts = Inr (n, r) \<longrightarrow> length r \<le> length ts"
  "expr_expr_loop_term'_term_loop_power'_unary_primary_dom (Inr (Inr (Inr ts))) \<Longrightarrow>
     \<forall>n r. primary ts = Inr (n, r) \<longrightarrow> length r \<le> length ts"
proof (induct rule: expr_expr_loop_term'_term_loop_power'_unary_primary.pinduct)
  case (1 ts)
  then show ?case
    by (fastforce simp: expr.psimps split: sum.splits)
next
  case (2 node ts)
  then show ?case
    by (fastforce simp: expr_loop.psimps split: sum.splits list.splits if_splits)
next
  case (3 ts)
  then show ?case
    by (fastforce simp: term'.psimps split: sum.splits)
next
  case (4 node ts)
  then show ?case
    by (fastforce simp: term_loop.psimps split: sum.splits list.splits if_splits)
next
  case (5 ts)
  then show ?case
    by (fastforce simp: power'.psimps split: sum.splits list.splits if_splits)
next
  case (6 ts)
  then show ?case
    by (fastforce simp: unary.psimps split: sum.splits list.splits if_splits)
next
  case (7 ts)
  then show ?case
    by (fastforce simp: primary.psimps eat_def split: sum.splits list.splits if_splits)
qed

lemma term'_length_dom:
  "term' ts = Inr (n, r) \<Longrightarrow>
   expr_expr_loop_term'_term_loop_power'_unary_primary_dom (Inl (Inr (Inr ts))) \<Longrightarrow>
   length r \<le> length ts"
  using parser_length_dom(3) by blast

lemma power'_length_dom:
  "power' ts = Inr (n, r) \<Longrightarrow>
   expr_expr_loop_term'_term_loop_power'_unary_primary_dom (Inr (Inl (Inr ts))) \<Longrightarrow>
   length r \<le> length ts"
  using parser_length_dom(5) by blast

lemma unary_length_dom:
  "unary ts = Inr (n, r) \<Longrightarrow>
   expr_expr_loop_term'_term_loop_power'_unary_primary_dom (Inr (Inr (Inl ts))) \<Longrightarrow>
   length r \<le> length ts"
  using parser_length_dom(6) by blast

termination expr
proof (relation "inv_image (less_than <*lex*> less_than)
      (\<lambda>x. case x of
          Inl (Inl ts) \<Rightarrow> (length ts, 6::nat)
        | Inl (Inr (Inl (n, ts))) \<Rightarrow> (length ts, 5)
        | Inl (Inr (Inr ts)) \<Rightarrow> (length ts, 4)
        | Inr (Inl (Inl (n, ts))) \<Rightarrow> (length ts, 3)
        | Inr (Inl (Inr ts)) \<Rightarrow> (length ts, 2)
        | Inr (Inr (Inl ts)) \<Rightarrow> (length ts, 1)
        | Inr (Inr (Inr ts)) \<Rightarrow> (length ts, 0))")
qed (auto simp: less_le dest: term'_length_dom power'_length_dom unary_length_dom)

text \<open>
  The defining equations apply to any argument, so they are unfolded only where
  a proof asks for them.
\<close>

declare expr.simps [simp del] expr_loop.simps [simp del] term'.simps [simp del]
  term_loop.simps [simp del] power'.simps [simp del] unary.simps [simp del]
  primary.simps [simp del]

lemmas parser_simps = expr.simps expr_loop.simps term'.simps term_loop.simps
  power'.simps unary.simps primary.simps


text \<open>
  \<open>Parser.parse\<close>: the statement and the tokens left when it returns.  The
  source returns the statement and does not look at what is left.
\<close>

definition parse :: "'h token list \<Rightarrow> 'h error + ('h node \<times> 'h token list)" where
  "parse ts =
     (case ts of
        [] \<Rightarrow> Inl IndexError
      | tok # rest \<Rightarrow>
          if ttype tok = ''PRINT'' then
            (case rest of
               [] \<Rightarrow> Inl IndexError
             | tok2 # rest2 \<Rightarrow>
                 if ttype tok2 = ''LPAREN'' then
                   (case expr rest2 of
                      Inl err \<Rightarrow> Inl err
                    | Inr (e, ts1) \<Rightarrow>
                        (case eat ''RPAREN'' ts1 of
                           Inl err \<Rightarrow> Inl err
                         | Inr (rp, ts2) \<Rightarrow> Inr (PrintStmt e, ts2)))
                 else
                   (case expr rest of
                      Inl err \<Rightarrow> Inl err
                    | Inr (e, ts1) \<Rightarrow> Inr (PrintStmt e, ts1)))
          else if ttype tok = ''IDENT'' then
            (case rest of
               [] \<Rightarrow> Inl IndexError
             | tok2 # rest2 \<Rightarrow>
                 if ttype tok2 = ''ASSIGN'' then
                   (case expr rest2 of
                      Inl err \<Rightarrow> Inl err
                    | Inr (e, ts1) \<Rightarrow> Inr (Assign (tvalue tok) e, ts1))
                 else expr ts)
          else expr ts)"

section \<open>Code generator\<close>

datatype 'h instr = Instr (op: string) (arg: "'h pyval")

text \<open>
  \<open>Codegen.gen\<close>, with the list \<open>self.code\<close> passed in and returned; \<open>emit\<close>
  appends one instruction.  The last branch of the source calls \<open>gen\<close> again on
  the same node, which never returns normally: the interpreter ends it with
  \<open>RecursionError\<close>.
\<close>

definition emit :: "string \<Rightarrow> 'h pyval \<Rightarrow> 'h instr list \<Rightarrow> 'h instr list" where
  "emit opc a code = code @ [Instr opc a]"

fun gen :: "'h node \<Rightarrow> 'h instr list \<Rightarrow> 'h error + 'h instr list" where
  "gen (Num v) code = Inr (emit ''PUSH'' v code)"
| "gen (Var name) code = Inr (emit ''LOAD'' name code)"
| "gen (UnaryOp opr e) code =
     (case gen e code of
        Inl err \<Rightarrow> Inl err
      | Inr code1 \<Rightarrow>
          if opr = ''-'' then Inr (emit ''NEG'' PyNone code1)
          else Inl (NotImplementedError opr))"
| "gen (BinOp opr l r) code =
     (case gen l code of
        Inl err \<Rightarrow> Inl err
      | Inr code1 \<Rightarrow>
          (case gen r code1 of
             Inl err \<Rightarrow> Inl err
           | Inr code2 \<Rightarrow>
               if opr = ''+'' then Inr (emit ''ADD'' PyNone code2)
               else if opr = ''-'' then Inr (emit ''SUB'' PyNone code2)
               else if opr = ''*'' then Inr (emit ''MUL'' PyNone code2)
               else if opr = ''/'' then Inr (emit ''DIV'' PyNone code2)
               else if opr = ''^'' then Inr (emit ''POW'' PyNone code2)
               else Inl (NotImplementedError opr)))"
| "gen (Assign name e) code =
     (case gen e code of
        Inl err \<Rightarrow> Inl err
      | Inr code1 \<Rightarrow> Inr (emit ''STORE'' name code1))"
| "gen (PrintStmt e) code =
     (case gen e code of
        Inl err \<Rightarrow> Inl err
      | Inr code1 \<Rightarrow> Inr (emit ''PRINT'' PyNone code1))"
| "gen Other code = Inl RecursionError"

section \<open>Virtual machine\<close>

text \<open>
  The state of a \<open>VM\<close> object: the operand stack (the head of the list is the
  top, the end of the Python list) and the variables; \<open>printed\<close> is what
  \<open>print\<close> has written so far, one value a line.  Keys of \<open>env\<close> are compared as
  values of the model; the names that the lexer produces are strings.
\<close>

record 'h vm =
  stack :: "'h pyval list"
  env :: "'h pyval \<rightharpoonup> 'h pyval"
  printed :: "'h pyval list"

definition new_vm :: "'h vm" where
  "new_vm = \<lparr>stack = [], env = Map.empty, printed = []\<rparr>"

text \<open>
  \<open>b, a = self.stack.pop(), self.stack.pop()\<close> and the push of \<open>a \<circ> b\<close>.  An
  exception leaves the stack as it is at that moment: what was popped is gone.
\<close>

definition binary ::
  "('h pyval \<Rightarrow> 'h pyval \<Rightarrow> 'h error + 'h pyval) \<Rightarrow> 'h vm \<Rightarrow> 'h error option \<times> 'h vm" where
  "binary f s =
     (case stack s of
        [] \<Rightarrow> (Some IndexError, s)
      | b # st1 \<Rightarrow>
          (case st1 of
             [] \<Rightarrow> (Some IndexError, s\<lparr>stack := []\<rparr>)
           | a # st \<Rightarrow>
               (case f a b of
                  Inl err \<Rightarrow> (Some err, s\<lparr>stack := st\<rparr>)
                | Inr v \<Rightarrow> (None, s\<lparr>stack := v # st\<rparr>))))"

text \<open>The body of the loop of \<open>VM.run\<close>: one instruction.\<close>

definition exec_instr :: "'h host \<Rightarrow> 'h instr \<Rightarrow> 'h vm \<Rightarrow> 'h error option \<times> 'h vm" where
  "exec_instr h ins s =
     (if op ins = ''PUSH'' then (None, s\<lparr>stack := arg ins # stack s\<rparr>)
      else if op ins = ''LOAD'' then
        (case env s (arg ins) of
           None \<Rightarrow> (Some (NameError (arg ins)), s)
         | Some v \<Rightarrow> (None, s\<lparr>stack := v # stack s\<rparr>))
      else if op ins = ''STORE'' then
        (case stack s of
           [] \<Rightarrow> (Some IndexError, s)
         | val # st \<Rightarrow> (None, s\<lparr>stack := st, env := (env s)(arg ins \<mapsto> val)\<rparr>))
      else if op ins = ''NEG'' then
        (case stack s of
           [] \<Rightarrow> (Some IndexError, s)
         | a # st \<Rightarrow>
             (case py_neg h a of
                Inl err \<Rightarrow> (Some err, s\<lparr>stack := st\<rparr>)
              | Inr v \<Rightarrow> (None, s\<lparr>stack := v # st\<rparr>)))
      else if op ins = ''ADD'' then binary (py_add h) s
      else if op ins = ''SUB'' then binary (py_sub h) s
      else if op ins = ''MUL'' then binary (py_mul h) s
      else if op ins = ''DIV'' then binary (py_div h) s
      else if op ins = ''POW'' then binary (py_pow h) s
      else if op ins = ''PRINT'' then
        (case stack s of
           [] \<Rightarrow> (Some IndexError, s)
         | val # st \<Rightarrow> (None, s\<lparr>stack := st, printed := printed s @ [val]\<rparr>))
      else (Some (RuntimeError (op ins)), s))"

text \<open>\<open>VM.run\<close>: the exception raised, if any, and the state left behind.\<close>

fun run :: "'h host \<Rightarrow> 'h instr list \<Rightarrow> 'h vm \<Rightarrow> 'h error option \<times> 'h vm" where
  "run h [] s = (None, s)"
| "run h (ins # code) s =
     (case exec_instr h ins s of
        (None, s') \<Rightarrow> run h code s'
      | (Some err, s') \<Rightarrow> (Some err, s'))"

section \<open>The pipeline\<close>

text \<open>\<open>compile_and_run\<close>: an error before \<open>vm.run\<close> leaves the machine untouched.\<close>

definition compile_and_run :: "'h host \<Rightarrow> string \<Rightarrow> 'h vm \<Rightarrow> 'h error option \<times> 'h vm" where
  "compile_and_run h line s =
     (case tokens h line of
        Inl err \<Rightarrow> (Some err, s)
      | Inr toks \<Rightarrow>
          (case parse toks of
             Inl err \<Rightarrow> (Some err, s)
           | Inr (ast, left) \<Rightarrow>
               (case gen ast [] of
                  Inl err \<Rightarrow> (Some err, s)
                | Inr code \<Rightarrow> run h code s)))"

section \<open>Notions used by the statements\<close>

text \<open>
  The tree that \<open>compile_and_run\<close> hands to the code generator (its first four
  lines).
\<close>

definition ast_of :: "'h host \<Rightarrow> string \<Rightarrow> 'h error + 'h node" where
  "ast_of h line =
     (case tokens h line of
        Inl err \<Rightarrow> Inl err
      | Inr toks \<Rightarrow> (case parse toks of Inl err \<Rightarrow> Inl err | Inr (ast, left) \<Rightarrow> Inr ast))"

text \<open>
  The part of \<open>compile_and_run\<close> after the lexer (its last five lines), on a
  token list.
\<close>

definition run_tokens :: "'h host \<Rightarrow> 'h token list \<Rightarrow> 'h vm \<Rightarrow> 'h error option \<times> 'h vm" where
  "run_tokens h toks s =
     (case parse toks of
        Inl err \<Rightarrow> (Some err, s)
      | Inr (ast, left) \<Rightarrow>
          (case gen ast [] of
             Inl err \<Rightarrow> (Some err, s)
           | Inr code \<Rightarrow> run h code s))"

text \<open>
  The trees that the grammar methods build: numbers, names, the five binary
  operators and unary minus.
\<close>

fun is_expr :: "'h node \<Rightarrow> bool" where
  "is_expr (Num v) = True"
| "is_expr (Var name) = True"
| "is_expr (BinOp opr l r) =
     (opr \<in> {''+'', ''-'', ''*'', ''/'', ''^''} \<and> is_expr l \<and> is_expr r)"
| "is_expr (UnaryOp opr e) = (opr = ''-'' \<and> is_expr e)"
| "is_expr (Assign name e) = False"
| "is_expr (PrintStmt e) = False"
| "is_expr Other = False"

text \<open>The operators of the \<open>UnaryOp\<close> nodes of a tree.\<close>

fun unary_ops :: "'h node \<Rightarrow> string set" where
  "unary_ops (Num v) = {}"
| "unary_ops (Var name) = {}"
| "unary_ops (BinOp opr l r) = unary_ops l \<union> unary_ops r"
| "unary_ops (UnaryOp opr e) = insert opr (unary_ops e)"
| "unary_ops (Assign name e) = unary_ops e"
| "unary_ops (PrintStmt e) = unary_ops e"
| "unary_ops Other = {}"

text \<open>
  Token lists as the lexer returns them end with an \<open>EOF\<close> token.
  \<open>put_tail t junk ts\<close> is \<open>ts\<close> with its last token replaced by the token \<open>t\<close>
  and the tokens \<open>junk\<close>.  A token \<open>continues\<close> a statement when it is a binary
  operator or \<open>=\<close>.
\<close>

definition eof_ended :: "'h token list \<Rightarrow> bool" where
  "eof_ended ts = (ts \<noteq> [] \<and> ttype (last ts) = ''EOF'')"

definition put_tail :: "'h token \<Rightarrow> 'h token list \<Rightarrow> 'h token list \<Rightarrow> 'h token list" where
  "put_tail t junk ts = butlast ts @ t # junk"

definition continues :: "'h token \<Rightarrow> bool" where
  "continues t = (ttype t \<in> {''PLUS'', ''MINUS'', ''MUL'', ''DIV'', ''POW'', ''ASSIGN''})"

text \<open>\<open>repos g t\<close> is the token \<open>t\<close> at the offset \<open>g (pos t)\<close>.\<close>

definition repos :: "(nat \<Rightarrow> nat) \<Rightarrow> 'h token \<Rightarrow> 'h token" where
  "repos g t = Token (ttype t) (tvalue t) (g (pos t))"


text \<open>
  A host to run programs over \<open>int\<close> on: a float literal is kept as its text,
  and every operation that is handed to the host raises.
\<close>

definition int_host :: "string host" where
  "int_host = \<lparr>float_of_str = (\<lambda>num. num), host_neg = (\<lambda>a. Inl TypeError),
     host_arith = (\<lambda>opc a b. Inl TypeError)\<rparr>"

text \<open>
  A host that computes nothing: a float literal is its text, and an operation
  that is handed to the host returns the operation applied to its operands,
  written down as a term.
\<close>

datatype hterm =
    FloatLit string
  | HostNeg "hterm pyval"
  | HostOp string "hterm pyval" "hterm pyval"

definition free_host :: "hterm host" where
  "free_host = \<lparr>float_of_str = FloatLit, host_neg = (\<lambda>a. Inr (PyHost (HostNeg a))),
     host_arith = (\<lambda>opc a b. Inr (PyHost (HostOp opc a b)))\<rparr>"

section \<open>Evaluation and composition lemmas\<close>

lemmas lexer_simps = tokens_def tokens_loop.simps number_def ident_def isalnum_def isdigit_def
  isspace_def isdecimal_def isalpha_def single_char_def int_of_str_def

lemmas vm_simps = emit_def exec_instr_def binary_def py_neg_def py_add_def py_sub_def
  py_mul_def py_div_def py_pow_def new_vm_def

lemmas pipeline_simps = compile_and_run_def ast_of_def parse_def parser_simps eat_def

lemma compile_and_run_tokens:
  "compile_and_run h line s =
     (case tokens h line of Inl err \<Rightarrow> (Some err, s) | Inr toks \<Rightarrow> run_tokens h toks s)"
  by (simp add: compile_and_run_def run_tokens_def split: sum.splits)

lemma emit_append: "emit opc a (c1 @ c2) = c1 @ emit opc a c2"
  by (simp add: emit_def)

lemma gen_append:
  "gen n (c1 @ c2) = (case gen n c2 of Inl err \<Rightarrow> Inl err | Inr c \<Rightarrow> Inr (c1 @ c))"
  by (induction n arbitrary: c2) (auto simp: emit_append split: sum.splits)

lemma gen_acc:
  "gen n code = (case gen n [] of Inl err \<Rightarrow> Inl err | Inr c \<Rightarrow> Inr (code @ c))"
  using gen_append [of n code "[]"] by simp

lemma run_append:
  "run h (c1 @ c2) s =
     (case run h c1 s of (None, s') \<Rightarrow> run h c2 s' | (Some err, s') \<Rightarrow> (Some err, s'))"
  by (induction c1 arbitrary: s) (auto split: prod.splits option.splits)

lemma gen_UnaryOp_nil:
  "gen e [] = Inr c \<Longrightarrow> gen (UnaryOp ''-'' e) [] = Inr (c @ [Instr ''NEG'' PyNone])"
  by (simp add: emit_def)

lemma gen_BinOp_nil:
  assumes "gen l [] = Inr cl" and "gen r [] = Inr cr"
  shows "gen (BinOp opr l r) [] =
     (if opr = ''+'' then Inr (cl @ cr @ [Instr ''ADD'' PyNone])
      else if opr = ''-'' then Inr (cl @ cr @ [Instr ''SUB'' PyNone])
      else if opr = ''*'' then Inr (cl @ cr @ [Instr ''MUL'' PyNone])
      else if opr = ''/'' then Inr (cl @ cr @ [Instr ''DIV'' PyNone])
      else if opr = ''^'' then Inr (cl @ cr @ [Instr ''POW'' PyNone])
      else Inl (NotImplementedError opr))"
  using assms gen_acc [of r cl] by (simp add: emit_def)

lemma gen_expr_ok: "is_expr e \<Longrightarrow> \<exists>c. gen e [] = Inr c"
proof (induction e)
  case (BinOp opr l r)
  then obtain cl cr where "gen l [] = Inr cl" "gen r [] = Inr cr" by auto
  from gen_BinOp_nil [OF this, of opr] BinOp.prems show ?case by auto
qed (auto simp: emit_def)

lemma binary_push:
  "binary f (s\<lparr>stack := b # a # st\<rparr>) =
     (case f a b of Inl err \<Rightarrow> (Some err, s\<lparr>stack := st\<rparr>) | Inr v \<Rightarrow> (None, s\<lparr>stack := v # st\<rparr>))"
  by (simp add: binary_def split: sum.splits)

lemma run_expr:
  "is_expr e \<Longrightarrow> gen e [] = Inr c \<Longrightarrow> run h c s = (None, s') \<Longrightarrow>
     \<exists>v. s' = s\<lparr>stack := v # stack s\<rparr>"
proof (induction e arbitrary: c s s')
  case (Num v)
  then show ?case by (auto simp: emit_def exec_instr_def)
next
  case (Var name)
  then show ?case by (auto simp: emit_def exec_instr_def split: option.splits)
next
  case (UnaryOp opr e)
  from UnaryOp.prems(1) have opr: "opr = ''-''" and e: "is_expr e" by simp_all
  from gen_expr_ok [OF e] obtain ce where ce: "gen e [] = Inr ce" by blast
  with UnaryOp.prems(2) opr have c: "c = ce @ [Instr ''NEG'' PyNone]"
    by (simp add: emit_def)
  from UnaryOp.prems(3) c obtain s1 where s1: "run h ce s = (None, s1)"
    and neg: "run h [Instr ''NEG'' PyNone] s1 = (None, s')"
    by (auto simp: run_append split: prod.splits option.splits)
  from UnaryOp.IH [OF e ce s1] obtain v where v: "s1 = s\<lparr>stack := v # stack s\<rparr>" by blast
  from neg v show ?case
    by (auto simp: exec_instr_def split: sum.splits)
next
  case (BinOp opr l r)
  from BinOp.prems(1) have opr: "opr \<in> {''+'', ''-'', ''*'', ''/'', ''^''}"
    and l: "is_expr l" and r: "is_expr r" by simp_all
  from gen_expr_ok [OF l] obtain cl where cl: "gen l [] = Inr cl" by blast
  from gen_expr_ok [OF r] obtain cr where cr: "gen r [] = Inr cr" by blast
  from gen_BinOp_nil [OF cl cr, of opr] BinOp.prems(2) opr
  obtain opc where c: "c = cl @ cr @ [Instr opc PyNone]"
    and opc: "opc \<in> {''ADD'', ''SUB'', ''MUL'', ''DIV'', ''POW''}"
    by (auto split: if_splits)
  from BinOp.prems(3) c obtain s1 s2 where s1: "run h cl s = (None, s1)"
    and s2: "run h cr s1 = (None, s2)"
    and last: "run h [Instr opc PyNone] s2 = (None, s')"
    by (auto simp: run_append split: prod.splits option.splits)
  from BinOp.IH(1) [OF l cl s1] obtain a where a: "s1 = s\<lparr>stack := a # stack s\<rparr>" by blast
  from BinOp.IH(2) [OF r cr s2] obtain b where b: "s2 = s1\<lparr>stack := b # stack s1\<rparr>" by blast
  from a b have s2': "s2 = s\<lparr>stack := b # a # stack s\<rparr>" by simp
  from last opc show ?case unfolding s2'
    by (auto simp: exec_instr_def binary_push split: sum.splits)
qed simp_all

section \<open>What the parser returns\<close>

lemma parser_is_expr:
  "\<forall>n r. expr ts = Inr (n, r) \<longrightarrow> is_expr n"
  "\<forall>n r. is_expr node \<longrightarrow> expr_loop node ts = Inr (n, r) \<longrightarrow> is_expr n"
  "\<forall>n r. term' ts = Inr (n, r) \<longrightarrow> is_expr n"
  "\<forall>n r. is_expr node1 \<longrightarrow> term_loop node1 ts = Inr (n, r) \<longrightarrow> is_expr n"
  "\<forall>n r. power' ts = Inr (n, r) \<longrightarrow> is_expr n"
  "\<forall>n r. unary ts = Inr (n, r) \<longrightarrow> is_expr n"
  "\<forall>n r. primary ts = Inr (n, r) \<longrightarrow> is_expr n"
proof (induct ts and node ts and ts and node1 ts and ts and ts and ts
    rule: expr_expr_loop_term'_term_loop_power'_unary_primary.induct)
  case (1 ts)
  then show ?case
    by (auto simp: expr.simps [of ts] split: sum.splits)
next
  case (2 node ts)
  then show ?case
    by (fastforce simp: expr_loop.simps [of node ts] split: sum.splits list.splits if_splits prod.splits) 
next
  case (3 ts)
  then show ?case
    by (auto simp: term'.simps [of ts] split: sum.splits)
next
  case (4 node ts)
  then show ?case
    by (fastforce simp: term_loop.simps [of node ts] split: sum.splits list.splits if_splits prod.splits)
next
  case (5 ts)
  then show ?case
    by (fastforce simp: power'.simps [of ts] split: sum.splits list.splits if_splits prod.splits)
next
  case (6 ts)
  then show ?case
    by (fastforce simp: unary.simps [of ts] split: sum.splits list.splits if_splits prod.splits)
next
  case (7 ts)
  then show ?case
    by (fastforce simp: primary.simps [of ts] eat_def split: sum.splits list.splits if_splits prod.splits)
qed

lemma expr_is_expr: "expr ts = Inr (e, left) \<Longrightarrow> is_expr e"
  using parser_is_expr(1) by blast

text \<open>What \<open>parse\<close> returns: an expression, or an assignment or print statement of one.\<close>

lemma parse_cases:
  assumes "parse ts = Inr (stmt, left)"
  shows "is_expr stmt \<or> (\<exists>name e. stmt = Assign name e \<and> is_expr e)
     \<or> (\<exists>e. stmt = PrintStmt e \<and> is_expr e)"
  using assms
  by (auto simp: parse_def eat_def dest: expr_is_expr
      split: list.splits if_splits sum.splits prod.splits)

lemma is_expr_unary_ops: "is_expr e \<Longrightarrow> unary_ops e \<subseteq> {''-''}"
  by (induction e) auto

lemma gen_stmt_ok:
  assumes "parse ts = Inr (stmt, left)"
  shows "\<exists>code. gen stmt [] = Inr code"
  using parse_cases [OF assms] gen_expr_ok by (fastforce simp: emit_def)


section \<open>The parser reads one token ahead\<close>

lemma eof_ended_simps [simp]:
  "eof_ended [] = False"
  "eof_ended [x] = (ttype x = ''EOF'')"
  "eof_ended (x # y # ys) = eof_ended (y # ys)"
  by (simp_all add: eof_ended_def)

lemma put_tail_simps [simp]:
  "put_tail t junk [x] = t # junk"
  "put_tail t junk (x # y # ys) = x # put_tail t junk (y # ys)"
  by (simp_all add: put_tail_def)

lemma expr_loop_Nil: "expr_loop node [] = Inl IndexError"
  by (simp add: expr_loop.simps [of node "[]"])

lemma expr_loop_Cons:
  "expr_loop node (tok # rest) =
     (if ttype tok = ''PLUS'' then
        (case term' rest of
           Inl e \<Rightarrow> Inl e
         | Inr (rhs, ts1) \<Rightarrow> expr_loop (BinOp ''+'' node rhs) ts1)
      else if ttype tok = ''MINUS'' then
        (case term' rest of
           Inl e \<Rightarrow> Inl e
         | Inr (rhs, ts1) \<Rightarrow> expr_loop (BinOp ''-'' node rhs) ts1)
      else Inr (node, tok # rest))"
  by (simp add: expr_loop.simps [of node "tok # rest"])

lemma term_loop_Nil: "term_loop node [] = Inl IndexError"
  by (simp add: term_loop.simps [of node "[]"])

lemma term_loop_Cons:
  "term_loop node (tok # rest) =
     (if ttype tok = ''MUL'' then
        (case power' rest of
           Inl e \<Rightarrow> Inl e
         | Inr (rhs, ts1) \<Rightarrow> term_loop (BinOp ''*'' node rhs) ts1)
      else if ttype tok = ''DIV'' then
        (case power' rest of
           Inl e \<Rightarrow> Inl e
         | Inr (rhs, ts1) \<Rightarrow> term_loop (BinOp ''/'' node rhs) ts1)
      else Inr (node, tok # rest))"
  by (simp add: term_loop.simps [of node "tok # rest"])

lemma unary_Nil: "unary [] = Inl IndexError"
  by (simp add: unary.simps [of "[]"])

lemma unary_Cons:
  "unary (tok # rest) =
     (if ttype tok = ''PLUS'' then unary rest
      else if ttype tok = ''MINUS'' then
        (case unary rest of
           Inl e \<Rightarrow> Inl e
         | Inr (node, ts1) \<Rightarrow> Inr (UnaryOp ''-'' node, ts1))
      else primary (tok # rest))"
  by (simp add: unary.simps [of "tok # rest"])

lemma primary_Nil: "primary [] = Inl IndexError"
  by (simp add: primary.simps [of "[]"])

lemma primary_Cons:
  "primary (tok # rest) =
     (if ttype tok = ''NUMBER'' then Inr (Num (tvalue tok), rest)
      else if ttype tok = ''IDENT'' then Inr (Var (tvalue tok), rest)
      else if ttype tok = ''LPAREN'' then
        (case expr rest of
           Inl e \<Rightarrow> Inl e
         | Inr (e, ts1) \<Rightarrow>
             (case eat ''RPAREN'' ts1 of
                Inl err \<Rightarrow> Inl err
              | Inr (rp, ts2) \<Rightarrow> Inr (e, ts2)))
      else Inl (UnexpectedToken (ttype tok) (pos tok)))"
  by (simp add: primary.simps [of "tok # rest"])

lemmas parser_Cons = expr_loop_Nil expr_loop_Cons term_loop_Nil term_loop_Cons
  unary_Nil unary_Cons primary_Nil primary_Cons

lemma eat_Cons:
  "eat kind (tok # rest) =
     (if ttype tok \<noteq> kind then Inl (Expected kind (ttype tok) (pos tok)) else Inr (tok, rest))"
  by (simp add: eat_def)

lemma eof_ended_Cons: "eof_ended (x # xs) = (if xs = [] then ttype x = ''EOF'' else eof_ended xs)"
  by (cases xs) simp_all

lemma put_tail_Cons: "xs \<noteq> [] \<Longrightarrow> put_tail t junk (x # xs) = x # put_tail t junk xs"
  by (cases xs) simp_all

lemma parser_trailing:
  assumes t: "\<not> continues t"
  shows
  "\<forall>n r. eof_ended ts \<longrightarrow> expr ts = Inr (n, r) \<longrightarrow>
     eof_ended r \<and> expr (put_tail t junk ts) = Inr (n, put_tail t junk r)"
  "\<forall>n r. eof_ended ts \<longrightarrow> expr_loop node ts = Inr (n, r) \<longrightarrow>
     eof_ended r \<and> expr_loop node (put_tail t junk ts) = Inr (n, put_tail t junk r)"
  "\<forall>n r. eof_ended ts \<longrightarrow> term' ts = Inr (n, r) \<longrightarrow>
     eof_ended r \<and> term' (put_tail t junk ts) = Inr (n, put_tail t junk r)"
  "\<forall>n r. eof_ended ts \<longrightarrow> term_loop node1 ts = Inr (n, r) \<longrightarrow>
     eof_ended r \<and> term_loop node1 (put_tail t junk ts) = Inr (n, put_tail t junk r)"
  "\<forall>n r. eof_ended ts \<longrightarrow> power' ts = Inr (n, r) \<longrightarrow>
     eof_ended r \<and> power' (put_tail t junk ts) = Inr (n, put_tail t junk r)"
  "\<forall>n r. eof_ended ts \<longrightarrow> unary ts = Inr (n, r) \<longrightarrow>
     eof_ended r \<and> unary (put_tail t junk ts) = Inr (n, put_tail t junk r)"
  "\<forall>n r. eof_ended ts \<longrightarrow> primary ts = Inr (n, r) \<longrightarrow>
     eof_ended r \<and> primary (put_tail t junk ts) = Inr (n, put_tail t junk r)"
proof (induct ts and node ts and ts and node1 ts and ts and ts and ts
    rule: expr_expr_loop_term'_term_loop_power'_unary_primary.induct)
  case (1 ts)
  show ?case
  proof (intro allI impI)
    fix n r
    assume e: "eof_ended ts" and p: "expr ts = Inr (n, r)"
    from p obtain node ts1 where u: "term' ts = Inr (node, ts1)"
      and l: "expr_loop node ts1 = Inr (n, r)"
      by (auto simp: expr.simps [of ts] split: sum.splits)
    from 1(1) e u have e1: "eof_ended ts1"
      and u': "term' (put_tail t junk ts) = Inr (node, put_tail t junk ts1)" by blast+
    from 1(2) [OF u refl] e1 l have "eof_ended r"
      and "expr_loop node (put_tail t junk ts1) = Inr (n, put_tail t junk r)" by blast+
    with u' show "eof_ended r \<and> expr (put_tail t junk ts) = Inr (n, put_tail t junk r)"
      by (simp add: expr.simps [of "put_tail t junk ts"])
  qed
next
  case (2 node ts)
  show ?case
  proof (intro allI impI)
    fix n r
    assume e: "eof_ended ts" and p: "expr_loop node ts = Inr (n, r)"
    from e obtain tok rest where ts: "ts = tok # rest" by (cases ts) auto
    show "eof_ended r \<and> expr_loop node (put_tail t junk ts) = Inr (n, put_tail t junk r)"
    proof (cases rest)
      case Nil
      with ts e p t show ?thesis
        by (auto simp: continues_def parser_Cons)
    next
      case (Cons y ys)
      then have sp: "put_tail t junk ts = tok # put_tail t junk rest" and er: "eof_ended rest"
        using ts e by simp_all
      consider (plus) "ttype tok = ''PLUS''"
        | (minus) "ttype tok \<noteq> ''PLUS''" "ttype tok = ''MINUS''"
        | (other) "ttype tok \<noteq> ''PLUS''" "ttype tok \<noteq> ''MINUS''" by blast
      then show ?thesis
      proof cases
        case plus
        with p ts obtain rhs ts1 where u: "term' rest = Inr (rhs, ts1)"
          and l: "expr_loop (BinOp ''+'' node rhs) ts1 = Inr (n, r)"
          by (auto simp: expr_loop_Cons split: sum.splits)
        from 2(1) [OF ts plus] er u have e1: "eof_ended ts1"
          and u': "term' (put_tail t junk rest) = Inr (rhs, put_tail t junk ts1)" by blast+
        from 2(2) [OF ts plus u refl] e1 l have "eof_ended r"
          and "expr_loop (BinOp ''+'' node rhs) (put_tail t junk ts1) = Inr (n, put_tail t junk r)"
          by blast+
        with u' plus sp show ?thesis by (simp add: expr_loop_Cons)
      next
        case minus
        with p ts obtain rhs ts1 where u: "term' rest = Inr (rhs, ts1)"
          and l: "expr_loop (BinOp ''-'' node rhs) ts1 = Inr (n, r)"
          by (auto simp: expr_loop_Cons split: sum.splits)
        from 2(3) [OF ts minus] er u have e1: "eof_ended ts1"
          and u': "term' (put_tail t junk rest) = Inr (rhs, put_tail t junk ts1)" by blast+
        from 2(4) [OF ts minus u refl] e1 l have "eof_ended r"
          and "expr_loop (BinOp ''-'' node rhs) (put_tail t junk ts1) = Inr (n, put_tail t junk r)"
          by blast+
        with u' minus sp show ?thesis by (simp add: expr_loop_Cons)
      next
        case other
        with p ts e sp show ?thesis by (auto simp: expr_loop_Cons)
      qed
    qed
  qed
next
  case (3 ts)
  show ?case
  proof (intro allI impI)
    fix n r
    assume e: "eof_ended ts" and p: "term' ts = Inr (n, r)"
    from p obtain node ts1 where u: "power' ts = Inr (node, ts1)"
      and l: "term_loop node ts1 = Inr (n, r)"
      by (auto simp: term'.simps [of ts] split: sum.splits)
    from 3(1) e u have e1: "eof_ended ts1"
      and u': "power' (put_tail t junk ts) = Inr (node, put_tail t junk ts1)" by blast+
    from 3(2) [OF u refl] e1 l have "eof_ended r"
      and "term_loop node (put_tail t junk ts1) = Inr (n, put_tail t junk r)" by blast+
    with u' show "eof_ended r \<and> term' (put_tail t junk ts) = Inr (n, put_tail t junk r)"
      by (simp add: term'.simps [of "put_tail t junk ts"])
  qed
next
  case (4 node ts)
  show ?case
  proof (intro allI impI)
    fix n r
    assume e: "eof_ended ts" and p: "term_loop node ts = Inr (n, r)"
    from e obtain tok rest where ts: "ts = tok # rest" by (cases ts) auto
    show "eof_ended r \<and> term_loop node (put_tail t junk ts) = Inr (n, put_tail t junk r)"
    proof (cases rest)
      case Nil
      with ts e p t show ?thesis
        by (auto simp: continues_def parser_Cons)
    next
      case (Cons y ys)
      then have sp: "put_tail t junk ts = tok # put_tail t junk rest" and er: "eof_ended rest"
        using ts e by simp_all
      consider (mul) "ttype tok = ''MUL''"
        | (div) "ttype tok \<noteq> ''MUL''" "ttype tok = ''DIV''"
        | (other) "ttype tok \<noteq> ''MUL''" "ttype tok \<noteq> ''DIV''" by blast
      then show ?thesis
      proof cases
        case mul
        with p ts obtain rhs ts1 where u: "power' rest = Inr (rhs, ts1)"
          and l: "term_loop (BinOp ''*'' node rhs) ts1 = Inr (n, r)"
          by (auto simp: term_loop_Cons split: sum.splits)
        from 4(1) [OF ts mul] er u have e1: "eof_ended ts1"
          and u': "power' (put_tail t junk rest) = Inr (rhs, put_tail t junk ts1)" by blast+
        from 4(2) [OF ts mul u refl] e1 l have "eof_ended r"
          and "term_loop (BinOp ''*'' node rhs) (put_tail t junk ts1) = Inr (n, put_tail t junk r)"
          by blast+
        with u' mul sp show ?thesis by (simp add: term_loop_Cons)
      next
        case div
        with p ts obtain rhs ts1 where u: "power' rest = Inr (rhs, ts1)"
          and l: "term_loop (BinOp ''/'' node rhs) ts1 = Inr (n, r)"
          by (auto simp: term_loop_Cons split: sum.splits)
        from 4(3) [OF ts div] er u have e1: "eof_ended ts1"
          and u': "power' (put_tail t junk rest) = Inr (rhs, put_tail t junk ts1)" by blast+
        from 4(4) [OF ts div u refl] e1 l have "eof_ended r"
          and "term_loop (BinOp ''/'' node rhs) (put_tail t junk ts1) = Inr (n, put_tail t junk r)"
          by blast+
        with u' div sp show ?thesis by (simp add: term_loop_Cons)
      next
        case other
        with p ts e sp show ?thesis by (auto simp: term_loop_Cons)
      qed
    qed
  qed
next
  case (5 ts)
  show ?case
  proof (intro allI impI)
    fix n r
    assume e: "eof_ended ts" and p: "power' ts = Inr (n, r)"
    from p obtain node ts1 where u: "unary ts = Inr (node, ts1)"
      by (auto simp: power'.simps [of ts] split: sum.splits)
    from 5(1) e u have e1: "eof_ended ts1"
      and u': "unary (put_tail t junk ts) = Inr (node, put_tail t junk ts1)" by blast+
    from e1 obtain tok rest where ts1: "ts1 = tok # rest" by (cases ts1) auto
    show "eof_ended r \<and> power' (put_tail t junk ts) = Inr (n, put_tail t junk r)"
    proof (cases rest)
      case Nil
      with ts1 e1 p u u' t show ?thesis
        by (auto simp: continues_def power'.simps [of ts] power'.simps [of "put_tail t junk ts"])
    next
      case (Cons y ys)
      then have sp: "put_tail t junk ts1 = tok # put_tail t junk rest" and er: "eof_ended rest"
        using ts1 e1 by simp_all
      show ?thesis
      proof (cases "ttype tok = ''POW''")
        case True
        with p u ts1 obtain rhs where l: "power' rest = Inr (rhs, r)" and n: "n = BinOp ''^'' node rhs"
          by (auto simp: power'.simps [of ts] split: sum.splits)
        from 5(2) [OF u refl ts1 True] er l have "eof_ended r"
          and "power' (put_tail t junk rest) = Inr (rhs, put_tail t junk r)" by blast+
        with u' sp True n show ?thesis
          by (simp add: power'.simps [of "put_tail t junk ts"])
      next
        case False
        with p u u' ts1 e1 sp show ?thesis
          by (auto simp: power'.simps [of ts] power'.simps [of "put_tail t junk ts"])
      qed
    qed
  qed
next
  case (6 ts)
  show ?case
  proof (intro allI impI)
    fix n r
    assume e: "eof_ended ts" and p: "unary ts = Inr (n, r)"
    from e obtain tok rest where ts: "ts = tok # rest" by (cases ts) auto
    show "eof_ended r \<and> unary (put_tail t junk ts) = Inr (n, put_tail t junk r)"
    proof (cases rest)
      case Nil
      with ts e p show ?thesis
        by (auto simp: parser_Cons)
    next
      case (Cons y ys)
      then have sp: "put_tail t junk ts = tok # put_tail t junk rest" and er: "eof_ended rest"
        using ts e by simp_all
      consider (plus) "ttype tok = ''PLUS''"
        | (minus) "ttype tok \<noteq> ''PLUS''" "ttype tok = ''MINUS''"
        | (other) "ttype tok \<noteq> ''PLUS''" "ttype tok \<noteq> ''MINUS''" by blast
      then show ?thesis
      proof cases
        case plus
        with p ts have l: "unary rest = Inr (n, r)" by (simp add: unary_Cons)
        from 6(1) [OF ts plus] er l have "eof_ended r"
          and "unary (put_tail t junk rest) = Inr (n, put_tail t junk r)" by blast+
        with plus sp show ?thesis by (simp add: unary_Cons)
      next
        case minus
        with p ts obtain m where l: "unary rest = Inr (m, r)" and n: "n = UnaryOp ''-'' m"
          by (auto simp: unary_Cons split: sum.splits)
        from 6(2) [OF ts minus] er l have "eof_ended r"
          and "unary (put_tail t junk rest) = Inr (m, put_tail t junk r)" by blast+
        with minus sp n show ?thesis by (simp add: unary_Cons)
      next
        case other
        with p ts have l: "primary ts = Inr (n, r)" by (simp add: unary_Cons)
        from 6(3) [OF ts other] e l have "eof_ended r"
          and "primary (put_tail t junk ts) = Inr (n, put_tail t junk r)" by blast+
        with other sp show ?thesis by (simp add: unary_Cons)
      qed
    qed
  qed
next
  case (7 ts)
  show ?case
  proof (intro allI impI)
    fix n r
    assume e: "eof_ended ts" and p: "primary ts = Inr (n, r)"
    from e obtain tok rest where ts: "ts = tok # rest" by (cases ts) auto
    show "eof_ended r \<and> primary (put_tail t junk ts) = Inr (n, put_tail t junk r)"
    proof (cases rest)
      case Nil
      with ts e p show ?thesis
        by (auto simp: parser_Cons)
    next
      case (Cons y ys)
      then have sp: "put_tail t junk ts = tok # put_tail t junk rest" and er: "eof_ended rest"
        using ts e by simp_all
      show ?thesis
      proof (cases "ttype tok \<noteq> ''NUMBER'' \<and> ttype tok \<noteq> ''IDENT'' \<and> ttype tok = ''LPAREN''")
        case False
        with p ts er sp show ?thesis
          by (auto simp: primary_Cons split: if_splits)
      next
        case True
        with p ts obtain ts1 rp where x: "expr rest = Inr (n, ts1)"
          and rp: "eat ''RPAREN'' ts1 = Inr (rp, r)"
          by (auto simp: primary_Cons split: sum.splits)
        from True have a: "ttype tok \<noteq> ''NUMBER''" and b: "ttype tok \<noteq> ''IDENT''"
          and c: "ttype tok = ''LPAREN''" by simp_all
        from 7 [OF ts a b c] er x have e1: "eof_ended ts1"
          and x': "expr (put_tail t junk rest) = Inr (n, put_tail t junk ts1)" by blast+
        from rp obtain r0 where ts1: "ts1 = r0 # r" and r0: "ttype r0 = ''RPAREN''"
          by (auto simp: eat_def split: list.splits if_splits)
        from e1 ts1 r0 have r: "r \<noteq> []" "eof_ended r"
          by (auto simp: eof_ended_Cons split: if_splits)
        with True sp x' ts1 r0 show ?thesis
          by (simp add: primary_Cons put_tail_Cons eat_Cons)
      qed
    qed
  qed
qed


lemma expr_trailing:
  assumes "\<not> continues t" and "eof_ended ts" and "expr ts = Inr (n, r)"
  shows "eof_ended r" and "expr (put_tail t junk ts) = Inr (n, put_tail t junk r)"
  using parser_trailing(1) [OF assms(1), of ts junk] assms(2,3) by blast+

lemma expr_eof: "ttype e = ''EOF'' \<Longrightarrow> expr [e] = Inl (UnexpectedToken ''EOF'' (pos e))"
  by (simp add: expr.simps [of "[e]"] term'.simps [of "[e]"] power'.simps [of "[e]"] parser_Cons)

lemma parse_trailing:
  assumes t: "\<not> continues t" and e: "eof_ended ts" and p: "parse ts = Inr (stmt, left)"
  shows "eof_ended left \<and> parse (put_tail t junk ts) = Inr (stmt, put_tail t junk left)"
proof -
  from e obtain tok rest where ts: "ts = tok # rest" by (cases ts) auto
  from t have ta: "ttype t \<noteq> ''ASSIGN''" by (simp add: continues_def)
  show ?thesis
  proof (cases rest)
    case Nil
    with ts e p show ?thesis
      by (simp add: parse_def expr_eof)
  next
    case (Cons y ys)
    then have sp: "put_tail t junk ts = tok # put_tail t junk rest" and er: "eof_ended rest"
      using ts e by simp_all
    consider (print) "ttype tok = ''PRINT''"
      | (ident) "ttype tok \<noteq> ''PRINT''" "ttype tok = ''IDENT''"
      | (other) "ttype tok \<noteq> ''PRINT''" "ttype tok \<noteq> ''IDENT''" by blast
    then show ?thesis
    proof cases
      case print
      show ?thesis
      proof (cases ys)
        case Nil
        with Cons print ts e p show ?thesis
          by (simp add: parse_def expr_eof split: if_splits)
      next
        case (Cons z zs)
        with \<open>rest = y # ys\<close> have sp2: "put_tail t junk rest = y # put_tail t junk ys"
          and ey: "eof_ended ys" using er by simp_all
        show ?thesis
        proof (cases "ttype y = ''LPAREN''")
          case True
          with p ts print \<open>rest = y # ys\<close> obtain ex ts1 rp where x: "expr ys = Inr (ex, ts1)"
            and rp: "eat ''RPAREN'' ts1 = Inr (rp, left)" and st: "stmt = PrintStmt ex"
            by (auto simp: parse_def split: sum.splits)
          from expr_trailing [OF t ey x] have e1: "eof_ended ts1"
            and x': "expr (put_tail t junk ys) = Inr (ex, put_tail t junk ts1)" by blast+
          from rp obtain r0 where ts1: "ts1 = r0 # left" and r0: "ttype r0 = ''RPAREN''"
            by (auto simp: eat_def split: list.splits if_splits)
          from e1 ts1 r0 have l: "left \<noteq> []" "eof_ended left"
            by (auto simp: eof_ended_Cons split: if_splits)
          with True print sp sp2 x' ts1 r0 st show ?thesis
            by (simp add: parse_def put_tail_Cons eat_Cons)
        next
          case False
          with p ts print \<open>rest = y # ys\<close> obtain ex where x: "expr rest = Inr (ex, left)"
            and st: "stmt = PrintStmt ex"
            by (auto simp: parse_def split: sum.splits)
          from expr_trailing [OF t er x] have "eof_ended left"
            and "expr (put_tail t junk rest) = Inr (ex, put_tail t junk left)" by blast+
          with False print sp sp2 st show ?thesis
            by (simp add: parse_def)
        qed
      qed
    next
      case ident
      show ?thesis
      proof (cases "ttype y = ''ASSIGN''")
        case True
        with Cons er have ys: "ys \<noteq> []" and ey: "eof_ended ys"
          by (auto simp: eof_ended_Cons split: if_splits)
        with Cons have sp2: "put_tail t junk rest = y # put_tail t junk ys"
          by (simp add: put_tail_Cons)
        from p ts ident True Cons obtain ex where x: "expr ys = Inr (ex, left)"
          and st: "stmt = Assign (tvalue tok) ex"
          by (auto simp: parse_def split: sum.splits)
        from expr_trailing [OF t ey x] have "eof_ended left"
          and "expr (put_tail t junk ys) = Inr (ex, put_tail t junk left)" by blast+
        with True ident sp sp2 st show ?thesis
          by (simp add: parse_def)
      next
        case False
        with p ts ident Cons have x: "expr ts = Inr (stmt, left)"
          by (simp add: parse_def)
        from expr_trailing [OF t e x] have l: "eof_ended left"
          and x': "expr (put_tail t junk ts) = Inr (stmt, put_tail t junk left)" by blast+
        have "\<exists>y' ys'. put_tail t junk rest = y' # ys' \<and> ttype y' \<noteq> ''ASSIGN''"
          using Cons False ta by (cases ys) simp_all
        with ident sp x' l show ?thesis
          by (auto simp: parse_def)
      qed
    next
      case other
      with p ts have x: "expr ts = Inr (stmt, left)"
        by (simp add: parse_def)
      from expr_trailing [OF t e x] have l: "eof_ended left"
        and x': "expr (put_tail t junk ts) = Inr (stmt, put_tail t junk left)" by blast+
      with other sp show ?thesis
        by (simp add: parse_def)
    qed
  qed
qed










section \<open>Offsets do not matter to a successful parse\<close>

text \<open>
  Lexing the same text from another offset gives the same tokens at shifted
  offsets, and the parser uses the offsets in its error messages only.
\<close>

lemma repos_simps [simp]:
  "ttype (repos g t) = ttype t" "tvalue (repos g t) = tvalue t" "pos (repos g t) = g (pos t)"
  "repos g (Token ty v p) = Token ty v (g p)"
  by (simp_all add: repos_def)

lemma skip_ws_shift: "skip_ws (i + k) cs = (fst (skip_ws i cs) + k, snd (skip_ws i cs))"
proof (induction cs arbitrary: i)
  case Nil
  show ?case by simp
next
  case (Cons c cs)
  from Cons [of "i + 1"] show ?case by simp
qed

lemma number_shift:
  "number h i cs = Inr (tok, i2, cs2) \<Longrightarrow>
     number h (i + k) cs = Inr (repos (\<lambda>p. p + k) tok, i2 + k, cs2)"
  by (auto simp: number_def split: prod.splits if_splits)

lemma ident_shift:
  "ident i cs = (tok, i2, cs2) \<Longrightarrow>
     ident (i + k) cs = (repos (\<lambda>p. p + k) tok, i2 + k, cs2)"
  by (auto simp: ident_def split: prod.splits if_splits)

lemma tokens_loop_shift:
  fixes h :: "'h host"
  shows "tokens_loop h i cs = Inr ts \<Longrightarrow>
     tokens_loop h (i + k) cs = Inr (map (repos (\<lambda>p. p + k)) ts)"
proof (induction h i cs arbitrary: ts rule: tokens_loop.induct)
  case (1 h i cs)
  obtain start cs1 where sk: "skip_ws i cs = (start, cs1)" by (cases "skip_ws i cs")
  then have sk': "skip_ws (i + k) cs = (start + k, cs1)"
    by (simp add: skip_ws_shift [of i k cs])
  show ?case
  proof (cases cs1)
    case Nil
    with 1(4) sk sk' show ?thesis
      by (auto simp: tokens_loop.simps [of h i cs] tokens_loop.simps [of h "i + k" cs])
  next
    case (Cons ch rest)
    consider (digit) "isdigit ch"
      | (alpha) "\<not> isdigit ch" "isalpha ch \<or> ch = CHR ''_''"
      | (other) "\<not> isdigit ch" "\<not> (isalpha ch \<or> ch = CHR ''_'')" by blast
    then show ?thesis
    proof cases
      case digit
      with 1(4) sk Cons obtain tok i2 cs2 toks where n: "number h start (ch # rest) = Inr (tok, i2, cs2)"
        and r: "tokens_loop h i2 cs2 = Inr toks" and ts: "ts = tok # toks"
        by (auto simp: tokens_loop.simps [of h i cs] split: sum.splits)
      from 1(1) [OF sk [symmetric] Cons digit n refl refl r]
      have "tokens_loop h (i2 + k) cs2 = Inr (map (repos (\<lambda>p. p + k)) toks)" .
      with number_shift [OF n, of k] sk' Cons digit ts show ?thesis
        by (simp add: tokens_loop.simps [of h "i + k" cs])
    next
      case alpha
      obtain tok :: "'h token" and i2 cs2 where n: "ident start (ch # rest) = (tok, i2, cs2)"
        by (cases "ident start (ch # rest) :: 'h token \<times> nat \<times> string") auto
      with 1(4) sk Cons alpha obtain toks where r: "tokens_loop h i2 cs2 = Inr toks"
        and ts: "ts = tok # toks"
        by (auto simp: tokens_loop.simps [of h i cs] split: sum.splits)
      from 1(2) [OF sk [symmetric] Cons alpha n [symmetric] refl r]
      have "tokens_loop h (i2 + k) cs2 = Inr (map (repos (\<lambda>p. p + k)) toks)" .
      with ident_shift [OF n, of k] sk' Cons alpha ts show ?thesis
        by (simp add: tokens_loop.simps [of h "i + k" cs])
    next
      case other
      with 1(4) sk Cons obtain kind toks where s: "single_char ch = Some kind"
        and r: "tokens_loop h (start + 1) rest = Inr toks"
        and ts: "ts = Token kind (PyStr [ch]) start # toks"
        by (auto simp: tokens_loop.simps [of h i cs] split: sum.splits option.splits)
      from 1(3) [OF sk [symmetric] Cons other s r]
      have "tokens_loop h (start + 1 + k) rest = Inr (map (repos (\<lambda>p. p + k)) toks)" .
      with s sk' Cons other ts show ?thesis
        by (simp add: tokens_loop.simps [of h "i + k" cs] add.commute add.left_commute)
    qed
  qed
qed

lemma tokens_loop_space:
  "isspace c \<Longrightarrow> tokens_loop h i (c # cs) = tokens_loop h (Suc i) cs"
  by (simp add: tokens_loop.simps [of h i "c # cs"] tokens_loop.simps [of h "Suc i" cs])


lemma parser_repos:
  "\<forall>n r. expr ts = Inr (n, r) \<longrightarrow> expr (map (repos g) ts) = Inr (n, map (repos g) r)"
  "\<forall>n r. expr_loop node ts = Inr (n, r) \<longrightarrow>
     expr_loop node (map (repos g) ts) = Inr (n, map (repos g) r)"
  "\<forall>n r. term' ts = Inr (n, r) \<longrightarrow> term' (map (repos g) ts) = Inr (n, map (repos g) r)"
  "\<forall>n r. term_loop node1 ts = Inr (n, r) \<longrightarrow>
     term_loop node1 (map (repos g) ts) = Inr (n, map (repos g) r)"
  "\<forall>n r. power' ts = Inr (n, r) \<longrightarrow> power' (map (repos g) ts) = Inr (n, map (repos g) r)"
  "\<forall>n r. unary ts = Inr (n, r) \<longrightarrow> unary (map (repos g) ts) = Inr (n, map (repos g) r)"
  "\<forall>n r. primary ts = Inr (n, r) \<longrightarrow> primary (map (repos g) ts) = Inr (n, map (repos g) r)"
proof (induct ts and node ts and ts and node1 ts and ts and ts and ts
    rule: expr_expr_loop_term'_term_loop_power'_unary_primary.induct)
  case (1 ts)
  show ?case
  proof (intro allI impI)
    fix n r
    assume p: "expr ts = Inr (n, r)"
    from p obtain node ts1 where u: "term' ts = Inr (node, ts1)"
      and l: "expr_loop node ts1 = Inr (n, r)"
      by (auto simp: expr.simps [of ts] split: sum.splits)
    from 1(1) u have u': "term' (map (repos g) ts) = Inr (node, map (repos g) ts1)" by blast
    from 1(2) [OF u refl] l
    have "expr_loop node (map (repos g) ts1) = Inr (n, map (repos g) r)" by blast
    with u' show "expr (map (repos g) ts) = Inr (n, map (repos g) r)"
      by (simp add: expr.simps [of "map (repos g) ts"])
  qed
next
  case (2 node ts)
  show ?case
  proof (intro allI impI)
    fix n r
    assume p: "expr_loop node ts = Inr (n, r)"
    then obtain tok rest where ts: "ts = tok # rest"
      by (cases ts) (auto simp: expr_loop_Nil)
    consider (plus) "ttype tok = ''PLUS''"
      | (minus) "ttype tok \<noteq> ''PLUS''" "ttype tok = ''MINUS''"
      | (other) "ttype tok \<noteq> ''PLUS''" "ttype tok \<noteq> ''MINUS''" by blast
    then show "expr_loop node (map (repos g) ts) = Inr (n, map (repos g) r)"
    proof cases
      case plus
      with p ts obtain rhs ts1 where u: "term' rest = Inr (rhs, ts1)"
        and l: "expr_loop (BinOp ''+'' node rhs) ts1 = Inr (n, r)"
        by (auto simp: expr_loop_Cons split: sum.splits)
      from 2(1) [OF ts plus] u
      have u': "term' (map (repos g) rest) = Inr (rhs, map (repos g) ts1)" by blast
      from 2(2) [OF ts plus u refl] l
      have "expr_loop (BinOp ''+'' node rhs) (map (repos g) ts1) = Inr (n, map (repos g) r)"
        by blast
      with u' plus ts show ?thesis by (simp add: expr_loop_Cons)
    next
      case minus
      with p ts obtain rhs ts1 where u: "term' rest = Inr (rhs, ts1)"
        and l: "expr_loop (BinOp ''-'' node rhs) ts1 = Inr (n, r)"
        by (auto simp: expr_loop_Cons split: sum.splits)
      from 2(3) [OF ts minus] u
      have u': "term' (map (repos g) rest) = Inr (rhs, map (repos g) ts1)" by blast
      from 2(4) [OF ts minus u refl] l
      have "expr_loop (BinOp ''-'' node rhs) (map (repos g) ts1) = Inr (n, map (repos g) r)"
        by blast
      with u' minus ts show ?thesis by (simp add: expr_loop_Cons)
    next
      case other
      with p ts show ?thesis by (auto simp: expr_loop_Cons)
    qed
  qed
next
  case (3 ts)
  show ?case
  proof (intro allI impI)
    fix n r
    assume p: "term' ts = Inr (n, r)"
    from p obtain node ts1 where u: "power' ts = Inr (node, ts1)"
      and l: "term_loop node ts1 = Inr (n, r)"
      by (auto simp: term'.simps [of ts] split: sum.splits)
    from 3(1) u have u': "power' (map (repos g) ts) = Inr (node, map (repos g) ts1)" by blast
    from 3(2) [OF u refl] l
    have "term_loop node (map (repos g) ts1) = Inr (n, map (repos g) r)" by blast
    with u' show "term' (map (repos g) ts) = Inr (n, map (repos g) r)"
      by (simp add: term'.simps [of "map (repos g) ts"])
  qed
next
  case (4 node ts)
  show ?case
  proof (intro allI impI)
    fix n r
    assume p: "term_loop node ts = Inr (n, r)"
    then obtain tok rest where ts: "ts = tok # rest"
      by (cases ts) (auto simp: term_loop_Nil)
    consider (mul) "ttype tok = ''MUL''"
      | (div) "ttype tok \<noteq> ''MUL''" "ttype tok = ''DIV''"
      | (other) "ttype tok \<noteq> ''MUL''" "ttype tok \<noteq> ''DIV''" by blast
    then show "term_loop node (map (repos g) ts) = Inr (n, map (repos g) r)"
    proof cases
      case mul
      with p ts obtain rhs ts1 where u: "power' rest = Inr (rhs, ts1)"
        and l: "term_loop (BinOp ''*'' node rhs) ts1 = Inr (n, r)"
        by (auto simp: term_loop_Cons split: sum.splits)
      from 4(1) [OF ts mul] u
      have u': "power' (map (repos g) rest) = Inr (rhs, map (repos g) ts1)" by blast
      from 4(2) [OF ts mul u refl] l
      have "term_loop (BinOp ''*'' node rhs) (map (repos g) ts1) = Inr (n, map (repos g) r)"
        by blast
      with u' mul ts show ?thesis by (simp add: term_loop_Cons)
    next
      case div
      with p ts obtain rhs ts1 where u: "power' rest = Inr (rhs, ts1)"
        and l: "term_loop (BinOp ''/'' node rhs) ts1 = Inr (n, r)"
        by (auto simp: term_loop_Cons split: sum.splits)
      from 4(3) [OF ts div] u
      have u': "power' (map (repos g) rest) = Inr (rhs, map (repos g) ts1)" by blast
      from 4(4) [OF ts div u refl] l
      have "term_loop (BinOp ''/'' node rhs) (map (repos g) ts1) = Inr (n, map (repos g) r)"
        by blast
      with u' div ts show ?thesis by (simp add: term_loop_Cons)
    next
      case other
      with p ts show ?thesis by (auto simp: term_loop_Cons)
    qed
  qed
next
  case (5 ts)
  show ?case
  proof (intro allI impI)
    fix n r
    assume p: "power' ts = Inr (n, r)"
    from p obtain node ts1 where u: "unary ts = Inr (node, ts1)"
      by (auto simp: power'.simps [of ts] split: sum.splits)
    from 5(1) u have u': "unary (map (repos g) ts) = Inr (node, map (repos g) ts1)" by blast
    from p u obtain tok rest where ts1: "ts1 = tok # rest"
      by (cases ts1) (auto simp: power'.simps [of ts])
    show "power' (map (repos g) ts) = Inr (n, map (repos g) r)"
    proof (cases "ttype tok = ''POW''")
      case True
      with p u ts1 obtain rhs where l: "power' rest = Inr (rhs, r)" and n: "n = BinOp ''^'' node rhs"
        by (auto simp: power'.simps [of ts] split: sum.splits)
      from 5(2) [OF u refl ts1 True] l
      have "power' (map (repos g) rest) = Inr (rhs, map (repos g) r)" by blast
      with u' ts1 True n show ?thesis
        by (simp add: power'.simps [of "map (repos g) ts"])
    next
      case False
      with p u u' ts1 show ?thesis
        by (auto simp: power'.simps [of ts] power'.simps [of "map (repos g) ts"])
    qed
  qed
next
  case (6 ts)
  show ?case
  proof (intro allI impI)
    fix n r
    assume p: "unary ts = Inr (n, r)"
    then obtain tok rest where ts: "ts = tok # rest"
      by (cases ts) (auto simp: unary_Nil)
    consider (plus) "ttype tok = ''PLUS''"
      | (minus) "ttype tok \<noteq> ''PLUS''" "ttype tok = ''MINUS''"
      | (other) "ttype tok \<noteq> ''PLUS''" "ttype tok \<noteq> ''MINUS''" by blast
    then show "unary (map (repos g) ts) = Inr (n, map (repos g) r)"
    proof cases
      case plus
      with p ts have l: "unary rest = Inr (n, r)" by (simp add: unary_Cons)
      from 6(1) [OF ts plus] l
      have "unary (map (repos g) rest) = Inr (n, map (repos g) r)" by blast
      with plus ts show ?thesis by (simp add: unary_Cons)
    next
      case minus
      with p ts obtain m where l: "unary rest = Inr (m, r)" and n: "n = UnaryOp ''-'' m"
        by (auto simp: unary_Cons split: sum.splits)
      from 6(2) [OF ts minus] l
      have "unary (map (repos g) rest) = Inr (m, map (repos g) r)" by blast
      with minus ts n show ?thesis by (simp add: unary_Cons)
    next
      case other
      with p ts have l: "primary ts = Inr (n, r)" by (simp add: unary_Cons)
      from 6(3) [OF ts other] l
      have "primary (map (repos g) ts) = Inr (n, map (repos g) r)" by blast
      with other ts show ?thesis by (simp add: unary_Cons)
    qed
  qed
next
  case (7 ts)
  show ?case
  proof (intro allI impI)
    fix n r
    assume p: "primary ts = Inr (n, r)"
    then obtain tok rest where ts: "ts = tok # rest"
      by (cases ts) (auto simp: primary_Nil)
    show "primary (map (repos g) ts) = Inr (n, map (repos g) r)"
    proof (cases "ttype tok \<noteq> ''NUMBER'' \<and> ttype tok \<noteq> ''IDENT'' \<and> ttype tok = ''LPAREN''")
      case False
      with p ts show ?thesis
        by (auto simp: primary_Cons split: if_splits)
    next
      case True
      with p ts obtain ts1 rp where x: "expr rest = Inr (n, ts1)"
        and rp: "eat ''RPAREN'' ts1 = Inr (rp, r)"
        by (auto simp: primary_Cons split: sum.splits)
      from True have a: "ttype tok \<noteq> ''NUMBER''" and b: "ttype tok \<noteq> ''IDENT''"
        and c: "ttype tok = ''LPAREN''" by simp_all
      from 7 [OF ts a b c] x
      have x': "expr (map (repos g) rest) = Inr (n, map (repos g) ts1)" by blast
      from rp obtain r0 where ts1: "ts1 = r0 # r" and r0: "ttype r0 = ''RPAREN''"
        by (auto simp: eat_def split: list.splits if_splits)
      with True ts x' show ?thesis
        by (simp add: primary_Cons eat_Cons)
    qed
  qed
qed

lemma expr_repos:
  "expr ts = Inr (n, r) \<Longrightarrow> expr (map (repos g) ts) = Inr (n, map (repos g) r)"
  using parser_repos(1) by blast

lemma parse_repos:
  assumes p: "parse ts = Inr (stmt, left)"
  shows "parse (map (repos g) ts) = Inr (stmt, map (repos g) left)"
proof -
  from p obtain tok rest where ts: "ts = tok # rest"
    by (cases ts) (auto simp: parse_def)
  consider (print) "ttype tok = ''PRINT''"
    | (ident) "ttype tok \<noteq> ''PRINT''" "ttype tok = ''IDENT''"
    | (other) "ttype tok \<noteq> ''PRINT''" "ttype tok \<noteq> ''IDENT''" by blast
  then show ?thesis
  proof cases
    case print
    with p ts obtain y ys where rest: "rest = y # ys"
      by (cases rest) (auto simp: parse_def)
    show ?thesis
    proof (cases "ttype y = ''LPAREN''")
      case True
      with p ts print rest obtain ex ts1 rp where x: "expr ys = Inr (ex, ts1)"
        and rp: "eat ''RPAREN'' ts1 = Inr (rp, left)" and st: "stmt = PrintStmt ex"
        by (auto simp: parse_def split: sum.splits)
      from rp obtain r0 where ts1: "ts1 = r0 # left" and r0: "ttype r0 = ''RPAREN''"
        by (auto simp: eat_def split: list.splits if_splits)
      with expr_repos [OF x, of g] True print ts rest st show ?thesis
        by (simp add: parse_def eat_Cons)
    next
      case False
      with p ts print rest obtain ex where x: "expr rest = Inr (ex, left)"
        and st: "stmt = PrintStmt ex"
        by (auto simp: parse_def split: sum.splits)
      with expr_repos [OF x, of g] False print ts rest show ?thesis
        by (simp add: parse_def)
    qed
  next
    case ident
    with p ts obtain y ys where rest: "rest = y # ys"
      by (cases rest) (auto simp: parse_def)
    show ?thesis
    proof (cases "ttype y = ''ASSIGN''")
      case True
      with p ts ident rest obtain ex where x: "expr ys = Inr (ex, left)"
        and st: "stmt = Assign (tvalue tok) ex"
        by (auto simp: parse_def split: sum.splits)
      with expr_repos [OF x, of g] True ident ts rest show ?thesis
        by (simp add: parse_def)
    next
      case False
      with p ts ident rest have x: "expr ts = Inr (stmt, left)"
        by (simp add: parse_def)
      with expr_repos [OF x, of g] False ident ts rest show ?thesis
        by (simp add: parse_def)
    qed
  next
    case other
    with p ts have x: "expr ts = Inr (stmt, left)"
      by (simp add: parse_def)
    with expr_repos [OF x, of g] other ts show ?thesis
      by (simp add: parse_def)
  qed
qed


lemma repos_repos: "repos g (repos f t) = repos (\<lambda>p. g (f p)) t"
  by (simp add: repos_def)

lemma run_tokens_repos:
  assumes "run_tokens h ts s = (None, s')"
  shows "run_tokens h (map (repos g) ts) s = (None, s')"
proof -
  from assms obtain stmt left where p: "parse ts = Inr (stmt, left)"
    by (auto simp: run_tokens_def split: sum.splits)
  from parse_repos [OF p, of g] p assms show ?thesis
    by (simp add: run_tokens_def)
qed

lemma tokens_print_prefix:
  "tokens h (''print '' @ E) =
     (case tokens_loop h 6 E of
        Inl err \<Rightarrow> Inl err
      | Inr ts \<Rightarrow> Inr (Token ''PRINT'' (PyStr ''print'') 0 # ts))"
proof -
  have n: "Suc (Suc (Suc (Suc (Suc (Suc 0))))) = 6" by simp
  have "tokens h (''print '' @ E) =
     (case tokens_loop h (Suc (Suc (Suc (Suc (Suc (Suc 0)))))) E of
        Inl err \<Rightarrow> Inl err
      | Inr ts \<Rightarrow> Inr (Token ''PRINT'' (PyStr ''print'') 0 # ts))"
    by (simp add: lexer_simps)
  then show ?thesis by (simp only: n)
qed

lemma tokens_assign_prefix:
  "tokens h (''x = '' @ E) =
     (case tokens_loop h 4 E of
        Inl err \<Rightarrow> Inl err
      | Inr ts \<Rightarrow> Inr (Token ''IDENT'' (PyStr ''x'') 0 # Token ''ASSIGN'' (PyStr ''='') 2 # ts))"
proof -
  have n: "Suc (Suc (Suc (Suc 0))) = 4" "Suc (Suc 0) = 2" "Suc (Suc 2) = 4" by simp_all
  have "tokens h (''x = '' @ E) =
     (case tokens_loop h (Suc (Suc (Suc (Suc 0)))) E of
        Inl err \<Rightarrow> Inl err
      | Inr ts \<Rightarrow>
          Inr (Token ''IDENT'' (PyStr ''x'') 0 # Token ''ASSIGN'' (PyStr ''='') (Suc (Suc 0)) # ts))"
    by (simp add: lexer_simps split: sum.splits)
  then show ?thesis unfolding n .
qed

lemma tokens_plus_prefix:
  "tokens h (''+'' @ E) =
     (case tokens_loop h (Suc 0) E of
        Inl err \<Rightarrow> Inl err
      | Inr ts \<Rightarrow> Inr (Token ''PLUS'' (PyStr ''+'') 0 # ts))"
  by (simp add: lexer_simps)

lemma parse_expr_only:
  assumes "parse ts = Inr (e, left)" and "is_expr e"
  shows "expr ts = Inr (e, left)"
  using assms
  by (auto simp: parse_def split: list.splits if_splits sum.splits)

lemma assign_print_tokens:
  assumes first: "ttype tok \<noteq> ''LPAREN''"
    and run_print: "run_tokens h (Token ''PRINT'' pv p0 # tok # ts) s = (None, s1)"
  shows "\<exists>v s2. printed s1 = printed s @ [v]
     \<and> run_tokens h (Token ''IDENT'' x p1 # Token ''ASSIGN'' av p2 # tok # ts) s = (None, s2)
     \<and> printed s2 = printed s
     \<and> run_tokens h [Token ''PRINT'' pv p3, Token ''IDENT'' x p4, Token ''EOF'' PyNone p5] s2
         = (None, s2\<lparr>printed := printed s @ [v]\<rparr>)"
proof -
  from run_print first obtain e left where x: "expr (tok # ts) = Inr (e, left)"
    by (auto simp: run_tokens_def parse_def split: sum.splits)
  from expr_is_expr [OF x] have ie: "is_expr e" .
  from gen_expr_ok [OF ie] obtain ce where ce: "gen e [] = Inr ce" by blast
  from run_print first x ce have r: "run h (ce @ [Instr ''PRINT'' PyNone]) s = (None, s1)"
    by (simp add: run_tokens_def parse_def emit_def)
  then obtain sa where sa: "run h ce s = (None, sa)"
    and pr: "run h [Instr ''PRINT'' PyNone] sa = (None, s1)"
    by (auto simp: run_append split: prod.splits option.splits)
  from run_expr [OF ie ce sa] obtain v where v: "sa = s\<lparr>stack := v # stack s\<rparr>" by blast
  from pr v have s1: "printed s1 = printed s @ [v]"
    by (auto simp: exec_instr_def)
  let ?s2 = "s\<lparr>env := (env s)(x \<mapsto> v)\<rparr>"
  have a: "run_tokens h (Token ''IDENT'' x p1 # Token ''ASSIGN'' av p2 # tok # ts) s = (None, ?s2)"
    using x ce sa v by (simp add: run_tokens_def parse_def emit_def run_append exec_instr_def)
  have p: "run_tokens h [Token ''PRINT'' pv p3, Token ''IDENT'' x p4, Token ''EOF'' PyNone p5] ?s2
         = (None, ?s2\<lparr>printed := printed s @ [v]\<rparr>)"
    by (simp add: run_tokens_def parse_def parser_simps emit_def exec_instr_def)
  from s1 a p show ?thesis by (intro exI [of _ v] exI [of _ ?s2]) simp
qed

text \<open>
  On source lines: for every text \<open>E\<close> whose first token is not a left
  parenthesis, if \<open>print E\<close> runs without error and prints \<open>v\<close>, then \<open>x = E\<close>
  runs without error from the same machine state and prints nothing, and
  \<open>print x\<close> after it prints the same \<open>v\<close>.
\<close>

lemma assign_print_text:
  assumes lex: "tokens h E = Inr (tok # ts)" and first: "ttype tok \<noteq> ''LPAREN''"
    and run_print: "compile_and_run h (''print '' @ E) s = (None, s1)"
  shows "\<exists>v s2. printed s1 = printed s @ [v]
     \<and> compile_and_run h (''x = '' @ E) s = (None, s2)
     \<and> printed s2 = printed s
     \<and> compile_and_run h ''print x'' s2 = (None, s2\<lparr>printed := printed s @ [v]\<rparr>)"
proof -
  let ?f = "repos (\<lambda>p. p + 6) :: 'a token \<Rightarrow> 'a token"
  let ?g = "repos (\<lambda>p. p - 2) :: 'a token \<Rightarrow> 'a token"
  let ?k = "repos (\<lambda>p. p + 4) :: 'a token \<Rightarrow> 'a token"
  from lex have l0: "tokens_loop h 0 E = Inr (tok # ts)" by (simp add: tokens_def)
  from tokens_loop_shift [OF l0, of 6] have l6: "tokens_loop h 6 E = Inr (?f tok # map ?f ts)"
    by simp
  from tokens_loop_shift [OF l0, of 4] have l4: "tokens_loop h 4 E = Inr (?k tok # map ?k ts)"
    by simp
  have tp: "tokens h (''print '' @ E) = Inr (Token ''PRINT'' (PyStr ''print'') 0 # ?f tok # map ?f ts)"
    unfolding tokens_print_prefix l6 by simp
  from run_print
  have rp: "run_tokens h (Token ''PRINT'' (PyStr ''print'') 0 # ?f tok # map ?f ts) s = (None, s1)"
    unfolding compile_and_run_tokens tp by simp
  from first have "ttype (?f tok) \<noteq> ''LPAREN''" by simp
  from assign_print_tokens [OF this rp, of "PyStr ''x''" 2 "PyStr ''=''" 4 0 6 7]
  obtain v s2 where s1: "printed s1 = printed s @ [v]"
    and a: "run_tokens h (Token ''IDENT'' (PyStr ''x'') 2 # Token ''ASSIGN'' (PyStr ''='') 4
              # ?f tok # map ?f ts) s = (None, s2)"
    and s2: "printed s2 = printed s"
    and p: "run_tokens h [Token ''PRINT'' (PyStr ''print'') 0, Token ''IDENT'' (PyStr ''x'') 6,
              Token ''EOF'' PyNone 7] s2 = (None, s2\<lparr>printed := printed s @ [v]\<rparr>)"
    by blast
  have eq: "map ?g (Token ''IDENT'' (PyStr ''x'') 2 # Token ''ASSIGN'' (PyStr ''='') 4
              # ?f tok # map ?f ts)
      = Token ''IDENT'' (PyStr ''x'') 0 # Token ''ASSIGN'' (PyStr ''='') 2 # ?k tok # map ?k ts"
    by (simp add: repos_def)
  from run_tokens_repos [OF a, of "\<lambda>p. p - 2"]
  have "run_tokens h (Token ''IDENT'' (PyStr ''x'') 0 # Token ''ASSIGN'' (PyStr ''='') 2
              # ?k tok # map ?k ts) s = (None, s2)"
    unfolding eq .
  moreover have "tokens h (''x = '' @ E) = Inr (Token ''IDENT'' (PyStr ''x'') 0
      # Token ''ASSIGN'' (PyStr ''='') 2 # ?k tok # map ?k ts)"
    unfolding tokens_assign_prefix l4 by simp
  ultimately have a': "compile_and_run h (''x = '' @ E) s = (None, s2)"
    unfolding compile_and_run_tokens by simp
  have "tokens h ''print x'' = Inr [Token ''PRINT'' (PyStr ''print'') 0,
      Token ''IDENT'' (PyStr ''x'') 6, Token ''EOF'' PyNone 7]"
    by (simp add: lexer_simps)
  with p have p': "compile_and_run h ''print x'' s2 = (None, s2\<lparr>printed := printed s @ [v]\<rparr>)"
    by (simp add: compile_and_run_tokens)
  from s1 a' s2 p' show ?thesis by blast
qed

section \<open>The stack effect of a statement\<close>

lemma statement_stack_effect:
  assumes p: "parse ts = Inr (stmt, left)" and g: "gen stmt [] = Inr code"
    and r: "run h code s = (None, s')"
  shows "if is_expr stmt then (\<exists>v. s' = s\<lparr>stack := v # stack s\<rparr>) else stack s' = stack s"
proof -
  from parse_cases [OF p]
  consider (expr) "is_expr stmt"
    | (assign) name e where "stmt = Assign name e" "is_expr e"
    | (print) e where "stmt = PrintStmt e" "is_expr e" by blast
  then show ?thesis
  proof cases
    case expr
    with run_expr [OF expr g r] show ?thesis by simp
  next
    case assign
    from gen_expr_ok [OF assign(2)] obtain ce where ce: "gen e [] = Inr ce" by blast
    with g assign(1) have code: "code = ce @ [Instr ''STORE'' name]" by (simp add: emit_def)
    with r obtain sa where sa: "run h ce s = (None, sa)"
      and st: "run h [Instr ''STORE'' name] sa = (None, s')"
      by (auto simp: run_append split: prod.splits option.splits)
    from run_expr [OF assign(2) ce sa] obtain v where "sa = s\<lparr>stack := v # stack s\<rparr>" by blast
    with st assign(1) show ?thesis by (auto simp: exec_instr_def)
  next
    case print
    from gen_expr_ok [OF print(2)] obtain ce where ce: "gen e [] = Inr ce" by blast
    with g print(1) have code: "code = ce @ [Instr ''PRINT'' PyNone]" by (simp add: emit_def)
    with r obtain sa where sa: "run h ce s = (None, sa)"
      and st: "run h [Instr ''PRINT'' PyNone] sa = (None, s')"
      by (auto simp: run_append split: prod.splits option.splits)
    from run_expr [OF print(2) ce sa] obtain v where "sa = s\<lparr>stack := v # stack s\<rparr>" by blast
    with st print(1) show ?thesis by (auto simp: exec_instr_def)
  qed
qed

lemma unary_plus: "ttype tok = ''PLUS'' \<Longrightarrow> unary (tok # ts) = unary ts"
  by (simp add: unary_Cons)

lemma power_plus: "ttype tok = ''PLUS'' \<Longrightarrow> power' (tok # ts) = power' ts"
  by (simp add: unary_plus power'.simps [of "tok # ts"] power'.simps [of ts])

lemma term_plus: "ttype tok = ''PLUS'' \<Longrightarrow> term' (tok # ts) = term' ts"
  by (simp add: power_plus term'.simps [of "tok # ts"] term'.simps [of ts])

lemma expr_plus: "ttype tok = ''PLUS'' \<Longrightarrow> expr (tok # ts) = expr ts"
  by (simp add: term_plus expr.simps [of "tok # ts"] expr.simps [of ts])

lemma parse_plus: "ttype tok = ''PLUS'' \<Longrightarrow> parse (tok # ts) = expr ts"
  by (simp add: expr_plus parse_def)

section \<open>Bare expression statements\<close>

text \<open>
  C1.  A line that is a bare expression, here \<open>3+4\<close>, is expected to print its
  value.  The tree of \<open>3+4\<close> is a \<open>BinOp\<close>, for which \<open>gen\<close> emits the operands
  and \<open>ADD\<close> and no \<open>PRINT\<close>: the line prints nothing, and the value 7 stays
  on the operand stack.
\<close>

theorem bare_expression_not_printed:
  "ast_of h ''3+4'' = Inr (BinOp ''+'' (Num (PyInt 3)) (Num (PyInt 4)))
   \<and> gen (BinOp ''+'' (Num (PyInt 3)) (Num (PyInt 4))) [] =
       Inr [Instr ''PUSH'' (PyInt 3), Instr ''PUSH'' (PyInt 4), Instr ''ADD'' PyNone]
   \<and> printed (snd (compile_and_run h ''3+4'' new_vm)) = []"
  by (simp add: pipeline_simps lexer_simps vm_simps)

text \<open>
  C2.  After a valid one-statement program the operand stack is expected to
  be empty.  After the bare expression \<open>3+4\<close> on a new machine, which runs
  without error, the stack holds the value 7.
\<close>

theorem bare_expression_stack_not_empty:
  "fst (compile_and_run h ''3+4'' new_vm) = None
   \<and> stack (snd (compile_and_run h ''3+4'' new_vm)) = [PyInt 7]"
  by (simp add: pipeline_simps lexer_simps vm_simps)

section \<open>Precedence\<close>

text \<open>
  C3, as stated: \<open>-2^2\<close> parses as the negation of \<open>2^2\<close> and \<open>print -2^2\<close>
  prints -4.  It does neither.
\<close>

theorem unary_minus_power_counterexample:
  "ast_of int_host ''-2^2'' \<noteq> Inr (UnaryOp ''-'' (BinOp ''^'' (Num (PyInt 2)) (Num (PyInt 2))))
   \<and> printed (snd (compile_and_run int_host ''print -2^2'' new_vm)) \<noteq> [PyInt (- 4)]"
  by (simp add: pipeline_simps lexer_simps vm_simps)

text \<open>
  C3, amended: a leading unary minus binds tighter than the power operator.
  \<open>-2^2\<close> parses as \<open>(-2)^2\<close>, and \<open>print -2^2\<close> prints 4.
\<close>

theorem unary_minus_binds_tighter_than_power:
  "ast_of h ''-2^2'' = Inr (BinOp ''^'' (UnaryOp ''-'' (Num (PyInt 2))) (Num (PyInt 2)))
   \<and> compile_and_run h ''print -2^2'' s = (None, s\<lparr>printed := printed s @ [PyInt 4]\<rparr>)"
  by (simp add: pipeline_simps lexer_simps vm_simps)

text \<open>
  C4.  \<open>print 2+3*4\<close> prints 14 and \<open>print 2^3^2\<close> prints 512, and
  \<open>print (2+3)*4\<close> is expected to print 20.  It prints 5: after \<open>print\<close>,
  \<open>parse\<close> takes a parenthesis as the statement's own, returns at its closing
  parenthesis and leaves \<open>*4\<close> unread; in the same way \<open>print (2+3)/0\<close> prints
  5 and raises nothing.  With the parenthesised group second, \<open>print 4*(2+3)\<close>
  prints 20.
\<close>

theorem print_paren_drops_rest:
  "compile_and_run h ''print (2+3)*4'' s = (None, s\<lparr>printed := printed s @ [PyInt 5]\<rparr>)
   \<and> compile_and_run h ''print (2+3)/0'' s = (None, s\<lparr>printed := printed s @ [PyInt 5]\<rparr>)
   \<and> compile_and_run h ''print 4*(2+3)'' s = (None, s\<lparr>printed := printed s @ [PyInt 20]\<rparr>)
   \<and> compile_and_run h ''print 2+3*4'' s = (None, s\<lparr>printed := printed s @ [PyInt 14]\<rparr>)
   \<and> compile_and_run h ''print 2^3^2'' s = (None, s\<lparr>printed := printed s @ [PyInt 512]\<rparr>)"
  by (simp add: pipeline_simps lexer_simps vm_simps)

section \<open>Run-time errors\<close>

text \<open>
  C7.  \<open>print y\<close> with \<open>y\<close> unbound fails with the undefined-variable error and
  leaves the machine as it was; with the empty environment, the environment is
  still empty.
\<close>

theorem print_undefined_variable:
  "env s = Map.empty \<Longrightarrow>
     compile_and_run h ''print y'' s = (Some (NameError (PyStr ''y'')), s)
     \<and> env (snd (compile_and_run h ''print y'' s)) = Map.empty"
  by (simp add: pipeline_simps lexer_simps vm_simps)

theorem print_undefined_variable_witness:
  "env (new_vm :: string vm) = Map.empty
   \<and> compile_and_run int_host ''print y'' new_vm = (Some (NameError (PyStr ''y'')), new_vm)
   \<and> env (snd (compile_and_run int_host ''print y'' new_vm)) = Map.empty"
proof -
  have e: "env (new_vm :: string vm) = Map.empty"
    by (simp add: new_vm_def)
  show ?thesis
    using e print_undefined_variable [OF e, of int_host] by simp
qed

text \<open>
  C8.  \<open>print 1/0\<close> fails with the division-by-zero error and prints nothing:
  the machine is left as it was.
\<close>

theorem print_division_by_zero:
  "compile_and_run h ''print 1/0'' s = (Some ZeroDivisionError, s)
   \<and> printed (snd (compile_and_run h ''print 1/0'' s)) = printed s"
  by (simp add: pipeline_simps lexer_simps vm_simps)

section \<open>Operand order\<close>

text \<open>
  C5.  The code generator emits the code of the left operand before the code
  of the right operand, and the machine pops the right operand \<open>b\<close> first and
  the left operand \<open>a\<close> second and pushes \<open>a - b\<close>, respectively \<open>a / b\<close>: when
  the code of \<open>l\<close> pushes \<open>a\<close> and the code of \<open>r\<close> then pushes \<open>b\<close>, the code
  of \<open>l - r\<close> leaves \<open>a\<close> minus \<open>b\<close> and the code of \<open>l / r\<close> leaves \<open>a\<close> divided
  by \<open>b\<close> (an error of the operation leaves the stack as it was before the
  operands).  For two \<open>int\<close>s that is \<open>x - y\<close>, and for \<open>/\<close> the
  division-by-zero error when \<open>y\<close> is 0; for every other pair of values it is
  what the host's subtraction, respectively division, returns on \<open>a\<close> as
  its left and \<open>b\<close> as its right operand.  \<open>print 7-3\<close> prints 4.
\<close>

theorem operand_order:
  assumes "gen l [] = Inr cl" and "gen r [] = Inr cr"
    and "run h cl s = (None, s\<lparr>stack := a # stack s\<rparr>)"
    and "run h cr (s\<lparr>stack := a # stack s\<rparr>) = (None, s\<lparr>stack := b # a # stack s\<rparr>)"
  shows "gen (BinOp ''-'' l r) [] = Inr (cl @ cr @ [Instr ''SUB'' PyNone])
       \<and> run h (cl @ cr @ [Instr ''SUB'' PyNone]) s =
           (case (case a of
                    PyInt x \<Rightarrow>
                      (case b of
                         PyInt y \<Rightarrow> Inr (PyInt (x - y))
                       | _ \<Rightarrow> host_arith h ''SUB'' a b)
                  | _ \<Rightarrow> host_arith h ''SUB'' a b) of
              Inl err \<Rightarrow> (Some err, s)
            | Inr v \<Rightarrow> (None, s\<lparr>stack := v # stack s\<rparr>))
       \<and> gen (BinOp ''/'' l r) [] = Inr (cl @ cr @ [Instr ''DIV'' PyNone])
       \<and> run h (cl @ cr @ [Instr ''DIV'' PyNone]) s =
           (case (case a of
                    PyInt x \<Rightarrow>
                      (case b of
                         PyInt y \<Rightarrow>
                           if y = 0 then Inl ZeroDivisionError else host_arith h ''DIV'' a b
                       | _ \<Rightarrow> host_arith h ''DIV'' a b)
                  | _ \<Rightarrow> host_arith h ''DIV'' a b) of
              Inl err \<Rightarrow> (Some err, s)
            | Inr v \<Rightarrow> (None, s\<lparr>stack := v # stack s\<rparr>))
       \<and> compile_and_run h ''print 7-3'' s = (None, s\<lparr>printed := printed s @ [PyInt 4]\<rparr>)"
proof -
  have g1: "gen (BinOp ''-'' l r) [] = Inr (cl @ cr @ [Instr ''SUB'' PyNone])"
    using gen_BinOp_nil [OF assms(1,2), of "''-''"] by simp
  have g2: "gen (BinOp ''/'' l r) [] = Inr (cl @ cr @ [Instr ''DIV'' PyNone])"
    using gen_BinOp_nil [OF assms(1,2), of "''/''"] by simp
  have r1: "run h (cl @ cr @ [Instr ''SUB'' PyNone]) s =
           (case py_sub h a b of
              Inl err \<Rightarrow> (Some err, s)
            | Inr v \<Rightarrow> (None, s\<lparr>stack := v # stack s\<rparr>))"
    using assms(3,4) by (simp add: run_append exec_instr_def binary_push split: sum.splits)
  have r2: "run h (cl @ cr @ [Instr ''DIV'' PyNone]) s =
           (case py_div h a b of
              Inl err \<Rightarrow> (Some err, s)
            | Inr v \<Rightarrow> (None, s\<lparr>stack := v # stack s\<rparr>))"
    using assms(3,4) by (simp add: run_append exec_instr_def binary_push split: sum.splits)
  have a1: "py_sub h a b =
      (case a of
         PyInt x \<Rightarrow>
           (case b of PyInt y \<Rightarrow> Inr (PyInt (x - y)) | _ \<Rightarrow> host_arith h ''SUB'' a b)
       | _ \<Rightarrow> host_arith h ''SUB'' a b)"
    by (simp add: py_sub_def split: pyval.splits)
  have a2: "py_div h a b =
      (case a of
         PyInt x \<Rightarrow>
           (case b of
              PyInt y \<Rightarrow> if y = 0 then Inl ZeroDivisionError else host_arith h ''DIV'' a b
            | _ \<Rightarrow> host_arith h ''DIV'' a b)
       | _ \<Rightarrow> host_arith h ''DIV'' a b)"
    by (simp add: py_div_def split: pyval.splits)
  have ex: "compile_and_run h ''print 7-3'' s = (None, s\<lparr>printed := printed s @ [PyInt 4]\<rparr>)"
    by (simp add: pipeline_simps lexer_simps vm_simps)
  from g1 r1 g2 r2 ex show ?thesis unfolding a1 a2 by blast
qed

theorem operand_order_witness:
  "gen (Num (PyHost (FloatLit ''7.5''))) [] = Inr [Instr ''PUSH'' (PyHost (FloatLit ''7.5''))]
   \<and> gen (Num (PyInt 3)) [] = Inr [Instr ''PUSH'' (PyInt 3) :: hterm instr]
   \<and> run free_host [Instr ''PUSH'' (PyHost (FloatLit ''7.5''))] new_vm
       = (None, new_vm\<lparr>stack := [PyHost (FloatLit ''7.5'')]\<rparr>)
   \<and> run free_host [Instr ''PUSH'' (PyInt 3)] (new_vm\<lparr>stack := [PyHost (FloatLit ''7.5'')]\<rparr>)
       = (None, new_vm\<lparr>stack := [PyInt 3, PyHost (FloatLit ''7.5'')]\<rparr>)
   \<and> run free_host [Instr ''PUSH'' (PyHost (FloatLit ''7.5'')), Instr ''PUSH'' (PyInt 3),
         Instr ''SUB'' PyNone] new_vm
       = (None, new_vm\<lparr>stack := [PyHost (HostOp ''SUB'' (PyHost (FloatLit ''7.5'')) (PyInt 3))]\<rparr>)
   \<and> run free_host [Instr ''PUSH'' (PyHost (FloatLit ''7.5'')), Instr ''PUSH'' (PyInt 3),
         Instr ''DIV'' PyNone] new_vm
       = (None, new_vm\<lparr>stack := [PyHost (HostOp ''DIV'' (PyHost (FloatLit ''7.5'')) (PyInt 3))]\<rparr>)
   \<and> compile_and_run free_host ''print 7.5-3'' new_vm
       = (None, new_vm\<lparr>printed := [PyHost (HostOp ''SUB'' (PyHost (FloatLit ''7.5'')) (PyInt 3))]\<rparr>)
   \<and> compile_and_run free_host ''print 7-3'' new_vm = (None, new_vm\<lparr>printed := [PyInt 4]\<rparr>)"
proof -
  let ?s = "new_vm :: hterm vm"
  let ?a = "PyHost (FloatLit ''7.5'')"
  have g1: "gen (Num ?a) [] = Inr [Instr ''PUSH'' ?a]"
    by (simp add: emit_def)
  have g2: "gen (Num (PyInt 3)) [] = Inr [Instr ''PUSH'' (PyInt 3) :: hterm instr]"
    by (simp add: emit_def)
  have r1: "run free_host [Instr ''PUSH'' ?a] ?s = (None, ?s\<lparr>stack := ?a # stack ?s\<rparr>)"
    by (simp add: exec_instr_def)
  have r2: "run free_host [Instr ''PUSH'' (PyInt 3)] (?s\<lparr>stack := ?a # stack ?s\<rparr>)
      = (None, ?s\<lparr>stack := PyInt 3 # ?a # stack ?s\<rparr>)"
    by (simp add: exec_instr_def)
  have t: "compile_and_run free_host ''print 7.5-3'' new_vm
       = (None, new_vm\<lparr>printed := [PyHost (HostOp ''SUB'' ?a (PyInt 3))]\<rparr>)"
    by (simp add: pipeline_simps lexer_simps vm_simps free_host_def)
  show ?thesis
    using operand_order [OF g1 g2 r1 r2] g1 g2 r1 r2 t
    by (simp add: new_vm_def free_host_def)
qed

section \<open>Assignment and load\<close>

text \<open>
  C6.  \<open>x = E\<close> followed by \<open>print x\<close> is expected to print what \<open>print E\<close>
  prints.  For \<open>E = (2+3)*4\<close>, on a new machine, the first prints 20 and the
  second prints 5: after \<open>print\<close> the parenthesis is taken as the statement's
  own and \<open>*4\<close> is left unread.
\<close>

theorem roundtrip_breaks_after_print_paren:
  "printed (snd (compile_and_run h ''print x''
       (snd (compile_and_run h ''x = (2+3)*4'' new_vm)))) = [PyInt 20]
   \<and> printed (snd (compile_and_run h ''print (2+3)*4'' new_vm)) = [PyInt 5]"
  by (simp add: pipeline_simps lexer_simps vm_simps)

section \<open>Trailing tokens\<close>



section \<open>Unary plus\<close>

text \<open>
  C10.  Unary plus is dropped by the parser: on a token sequence that starts
  with \<open>+\<close>, \<open>unary\<close> (and with it \<open>power\<close>, \<open>term\<close>, \<open>expr\<close> and \<open>parse\<close>)
  returns what it returns on the rest, and for every text \<open>E\<close> that parses to
  an expression tree, \<open>+E\<close> parses to the same tree.  No tree that \<open>parse\<close>
  returns has a \<open>UnaryOp\<close> node with the operator \<open>+\<close>, and \<open>gen\<close> succeeds on
  every tree that \<open>parse\<close> returns: its error branches are not reached from
  parsed input.
\<close>

theorem unary_plus_identity:
  "(ttype tok = ''PLUS'' \<longrightarrow>
      unary (tok # ts) = unary ts \<and> power' (tok # ts) = power' ts
      \<and> term' (tok # ts) = term' ts \<and> expr (tok # ts) = expr ts
      \<and> parse (tok # ts) = expr ts)
   \<and> (ast_of h E = Inr e \<and> is_expr e \<longrightarrow> ast_of h (''+'' @ E) = Inr e)
   \<and> (parse ts = Inr (stmt, left) \<longrightarrow>
        ''+'' \<notin> unary_ops stmt \<and> (\<exists>code. gen stmt [] = Inr code))"
proof -
  have a: "ast_of h (''+'' @ E) = Inr e" if ast: "ast_of h E = Inr e" and ie: "is_expr e"
  proof -
    from ast obtain ts0 left0 where l: "tokens h E = Inr ts0" and q: "parse ts0 = Inr (e, left0)"
      by (auto simp: ast_of_def split: sum.splits)
    from l have "tokens_loop h 0 E = Inr ts0" by (simp add: tokens_def)
    from tokens_loop_shift [OF this, of "Suc 0"]
    have l1: "tokens_loop h (Suc 0) E = Inr (map (repos (\<lambda>p. p + Suc 0)) ts0)" by simp
    have tp: "tokens h (''+'' @ E)
        = Inr (Token ''PLUS'' (PyStr ''+'') 0 # map (repos (\<lambda>p. p + Suc 0)) ts0)"
      unfolding tokens_plus_prefix l1 by simp
    from expr_repos [OF parse_expr_only [OF q ie], of "\<lambda>p. p + Suc 0"]
    have "parse (Token ''PLUS'' (PyStr ''+'') 0 # map (repos (\<lambda>p. p + Suc 0)) ts0)
        = Inr (e, map (repos (\<lambda>p. p + Suc 0)) left0)"
      by (simp add: parse_plus)
    then show ?thesis unfolding ast_of_def tp by simp
  qed
  have n: "''+'' \<notin> unary_ops stmt" if "parse ts = Inr (stmt, left)"
    using parse_cases [OF that] is_expr_unary_ops by fastforce
  show ?thesis
    using unary_plus power_plus term_plus expr_plus parse_plus a n gen_stmt_ok by blast
qed

theorem unary_plus_identity_witness:
  "ttype (Token ''PLUS'' (PyStr ''+'') 0 :: string token) = ''PLUS''
   \<and> parse [Token ''NUMBER'' (PyInt 5) 1, Token ''EOF'' PyNone 2 :: string token]
       = Inr (Num (PyInt 5), [Token ''EOF'' PyNone 2])
   \<and> parse [Token ''PLUS'' (PyStr ''+'') 0, Token ''NUMBER'' (PyInt 5) 1, Token ''EOF'' PyNone 2 :: string token]
       = Inr (Num (PyInt 5), [Token ''EOF'' PyNone 2])
   \<and> ''+'' \<notin> unary_ops (Num (PyInt 5) :: string node)
   \<and> gen (Num (PyInt 5) :: string node) [] = Inr [Instr ''PUSH'' (PyInt 5)]
   \<and> ast_of int_host ''5'' = Inr (Num (PyInt 5)) \<and> is_expr (Num (PyInt 5) :: string node)
   \<and> ast_of int_host ''+5'' = Inr (Num (PyInt 5))"
proof -
  let ?plus = "Token ''PLUS'' (PyStr ''+'') 0 :: string token"
  let ?ts = "[Token ''NUMBER'' (PyInt 5) 1, Token ''EOF'' PyNone 2 :: string token]"
  have k: "ttype ?plus = ''PLUS''" by simp
  have e: "expr ?ts = Inr (Num (PyInt 5), [Token ''EOF'' PyNone 2])"
    by (simp add: parser_simps)
  have q: "parse ?ts = Inr (Num (PyInt 5), [Token ''EOF'' PyNone 2])"
    by (simp add: parse_def parser_simps)
  have a: "ast_of int_host ''5'' = Inr (Num (PyInt 5))"
    by (simp add: pipeline_simps lexer_simps)
  have i: "is_expr (Num (PyInt 5) :: string node)" by simp
  have ap: "''+'' @ ''5'' = ''+5''" by simp
  show ?thesis
    using unary_plus_identity [of ?plus ?ts int_host "''5''" "Num (PyInt 5)" "Num (PyInt 5)"
        "[Token ''EOF'' PyNone 2]"] k e q a i
    unfolding ap by (simp add: emit_def)
qed

end
